theory Spec2Isabelle
  imports Main "HOL-Library.Finite_Map"
begin

section \<open>Text and bytes\<close>

text \<open>
  A Python \<open>str\<close> is modelled as a \<open>string\<close>: a list of code points, restricted to the
  code points below 256 that a \<open>char\<close> can hold. A \<open>bytes\<close> object is a list of
  \<open>char\<close> as well, each \<open>char\<close> then standing for one byte. The two are kept apart
  by the type synonyms below; \<open>utf8_encode\<close> is the only way from the first to the second.
\<close>

type_synonym str = string
type_synonym bytes = string

abbreviation CR :: char where
  "CR \<equiv> CHR 0x0D"

abbreviation LF :: char where
  "LF \<equiv> CHR 0x0A"

abbreviation DQUOTE :: char where
  "DQUOTE \<equiv> CHR 0x22"

abbreviation SQUOTE :: char where
  "SQUOTE \<equiv> CHR 0x27"

text \<open>\<open>str.isspace\<close> on one code point below 256.\<close>

definition isspace :: "char \<Rightarrow> bool" where
  "isspace c = (c \<in> set [CHR 0x09, CHR 0x0A, CHR 0x0B, CHR 0x0C, CHR 0x0D,
                          CHR 0x1C, CHR 0x1D, CHR 0x1E, CHR 0x1F, CHR 0x20,
                          CHR 0x85, CHR 0xA0])"

text \<open>
  Case mapping, from the rows of the Unicode character database for the code points
  below 256. \<open>tolower\<close> is the lower case of a code point: the letters A to Z, and
  U+00C0 to U+00DE but for the multiplication sign U+00D7, move up by 32. \<open>totitle\<close>
  is its title case: the letters a to z, and U+00E0 to U+00FE but for the division sign
  U+00F7, move down by 32, and the sharp s U+00DF becomes \<open>Ss\<close>. Two code points have
  their title case above U+00FF, where no \<open>char\<close> is: the micro sign U+00B5 (U+039C) and
  the y with diaeresis U+00FF (U+0178). For these \<open>totitle\<close> is \<open>None\<close>.
\<close>

definition tolower :: "char \<Rightarrow> char" where
  "tolower c =
     (let n = of_char c :: nat
      in if 65 \<le> n \<and> n \<le> 90 \<or> 192 \<le> n \<and> n \<le> 222 \<and> n \<noteq> 215 then char_of (n + 32) else c)"

definition totitle :: "char \<Rightarrow> str option" where
  "totitle c =
     (let n = of_char c :: nat
      in if 97 \<le> n \<and> n \<le> 122 \<or> 224 \<le> n \<and> n \<le> 254 \<and> n \<noteq> 247 then Some [char_of (n - 32)]
         else if n = 223 then Some ''Ss''
         else if n = 181 \<or> n = 255 then None
         else Some [c])"

text \<open>
  The operations of \<open>str\<close> that depend on the character database are defined over
  any alphabet, with what the database says of a character as parameters: whether it is
  whitespace (\<open>Py_UNICODE_ISSPACE\<close>), its title case (\<open>_PyUnicode_ToTitleFull\<close>), and
  its lower case at a place of a string (\<open>lower_ucs4\<close>, which looks at the neighbours
  of a capital sigma). The strings of the model are the instance of the code points
  below 256, given after each operation.
\<close>

text \<open>\<open>s.strip()\<close>: leading and trailing whitespace removed.\<close>

definition strip_by :: "('a \<Rightarrow> bool) \<Rightarrow> 'a list \<Rightarrow> 'a list" where
  "strip_by space s = rev (dropWhile space (rev (dropWhile space s)))"

definition strip :: "str \<Rightarrow> str" where
  "strip s = strip_by isspace s"

text \<open>
  \<open>s.split()\<close> with no separator: the maximal runs of non-whitespace, in order.
  \<open>split_loop space cur rest\<close> scans \<open>rest\<close> with the token \<open>cur\<close> under construction.
\<close>

fun split_loop :: "('a \<Rightarrow> bool) \<Rightarrow> 'a list \<Rightarrow> 'a list \<Rightarrow> 'a list list" where
  "split_loop space cur [] = (if cur = [] then [] else [cur])"
| "split_loop space cur (c # cs) =
     (if space c then (if cur = [] then split_loop space [] cs else cur # split_loop space [] cs)
      else split_loop space (cur @ [c]) cs)"

definition split_by :: "('a \<Rightarrow> bool) \<Rightarrow> 'a list \<Rightarrow> 'a list list" where
  "split_by space s = split_loop space [] s"

definition str_split :: "str \<Rightarrow> str list" where
  "str_split s = split_by isspace s"

text \<open>\<open>sep.join(parts)\<close>.\<close>

fun str_join :: "'a list \<Rightarrow> 'a list list \<Rightarrow> 'a list" where
  "str_join sep [] = []"
| "str_join sep [x] = x"
| "str_join sep (x # y # ys) = x @ sep @ str_join sep (y # ys)"

text \<open>
  \<open>s.capitalize()\<close>: the title case of the first character, then the lower case of
  each of the others at its place.
  \<^verbatim>\<open>
  c = PyUnicode_READ(kind, data, 0);
  n_res = _PyUnicode_ToTitleFull(c, mapped);
  ... append mapped[0 .. n_res - 1] ...
  for (i = 1; i < length; i++) {
      c = PyUnicode_READ(kind, data, i);
      n_res = lower_ucs4(kind, data, length, i, c, mapped);
      ... append mapped[0 .. n_res - 1] ...
  }
  \<close>
  Below 256 the lower case of a character does not depend on its place. Where the title
  case of the first character is no code point of the model, the model has no string to
  give: \<open>title_or_same\<close> then leaves that character as it is, and what is claimed of
  the user names of the model is claimed for names without these two characters.
\<close>

definition capitalize_by :: "('a \<Rightarrow> 'a list) \<Rightarrow> ('a list \<Rightarrow> nat \<Rightarrow> 'a list) \<Rightarrow> 'a list \<Rightarrow> 'a list" where
  "capitalize_by title lower_at s =
     (if s = [] then [] else title (hd s) @ concat (map (lower_at s) [1..<length s]))"

definition title_or_same :: "char \<Rightarrow> str" where
  "title_or_same c = (case totitle c of Some t \<Rightarrow> t | None \<Rightarrow> [c])"

definition tolower_at :: "str \<Rightarrow> nat \<Rightarrow> str" where
  "tolower_at s i = [tolower (s ! i)]"

definition capitalize :: "str \<Rightarrow> str" where
  "capitalize s = capitalize_by title_or_same tolower_at s"

text \<open>\<open>s.startswith(p)\<close>.\<close>

fun startswith :: "'a list \<Rightarrow> 'a list \<Rightarrow> bool" where
  "startswith s [] = True"
| "startswith [] (p # ps) = False"
| "startswith (x # xs) (p # ps) = (x = p \<and> startswith xs ps)"

section \<open>Username derivation\<close>

text \<open>
  \<^verbatim>\<open>
  def make_username(full_name: str) -> str:
      parts = [p for p in full_name.strip().split() if p]
      return ".".join([p.capitalize() for p in parts]) if parts else ""
  \<close>
  \<open>make_username_by\<close> is this function over any alphabet, \<open>dot\<close> being its full stop;
  \<open>make_username\<close> is the instance of the model.
\<close>

definition make_username_by ::
  "('a \<Rightarrow> bool) \<Rightarrow> ('a \<Rightarrow> 'a list) \<Rightarrow> ('a list \<Rightarrow> nat \<Rightarrow> 'a list) \<Rightarrow> 'a \<Rightarrow> 'a list \<Rightarrow> 'a list" where
  "make_username_by space title lower_at dot full_name =
     (let parts = filter (\<lambda>p. p \<noteq> []) (split_by space (strip_by space full_name))
      in if parts \<noteq> [] then str_join [dot] (map (capitalize_by title lower_at) parts) else [])"

definition make_username :: "str \<Rightarrow> str" where
  "make_username full_name =
     make_username_by isspace title_or_same tolower_at (CHR ''.'') full_name"

text \<open>
  The whitespace-separated tokens of a name, in the words of the specification rather
  than as \<open>split\<close> computes them. \<open>weave gaps tokens\<close> is the text that begins with
  the first gap and goes on with a token and a gap in turn. \<open>tokenization space s gaps
  tokens\<close> says that \<open>s\<close> is made in this way of gaps of whitespace only and of tokens
  that are not empty and hold no whitespace, with something in every gap between two
  tokens; the first gap and the last are what trimming takes away.
\<close>

fun weave :: "'a list list \<Rightarrow> 'a list list \<Rightarrow> 'a list" where
  "weave (g # gs) (t # ts) = g @ t @ weave gs ts"
| "weave (g # gs) [] = g"
| "weave [] ts = []"

definition tokenization :: "('a \<Rightarrow> bool) \<Rightarrow> 'a list \<Rightarrow> 'a list list \<Rightarrow> 'a list list \<Rightarrow> bool" where
  "tokenization space s gaps tokens =
     (length gaps = length tokens + 1 \<and> s = weave gaps tokens
      \<and> list_all (list_all space) gaps
      \<and> list_all (\<lambda>t. t \<noteq> [] \<and> list_all (\<lambda>c. \<not> space c) t) tokens
      \<and> [] \<notin> set (butlast (tl gaps)))"

section \<open>Markup encoder\<close>

text \<open>
  \<open>s.replace(old, new)\<close> for a pattern \<open>old\<close> of one character, and \<open>html.escape\<close>
  of the standard library (with its default \<open>quote=True\<close>), which is five such
  replacements in a row, the ampersand first:
  \<^verbatim>\<open>
  s = s.replace("&", "&amp;")
  s = s.replace("<", "&lt;")
  s = s.replace(">", "&gt;")
  s = s.replace('"', "&quot;")
  s = s.replace('\'', "&#x27;")
  \<close>
\<close>

definition replace_char :: "char \<Rightarrow> str \<Rightarrow> str \<Rightarrow> str" where
  "replace_char old new s = concat (map (\<lambda>c. if c = old then new else [c]) s)"

definition escape_html :: "str \<Rightarrow> str" where
  "escape_html s =
     replace_char SQUOTE ''&#x27;''
       (replace_char DQUOTE ''&quot;''
         (replace_char (CHR ''>'') ''&gt;''
           (replace_char (CHR ''<'') ''&lt;''
             (replace_char (CHR ''&'') ''&amp;'' s))))"

text \<open>\<open>raw.rstrip("\n")\<close>: every trailing line feed removed.\<close>

definition rstrip_nl :: "str \<Rightarrow> str" where
  "rstrip_nl s = rev (dropWhile (\<lambda>c. c = LF) (rev s))"

text \<open>
  \<^verbatim>\<open>
  def format_html_lines_for_fragment(lines):
      out = []
      for raw in lines:
          s = raw.rstrip("\n")
          if not s:
              out.append("<br/>")
              continue
          if s.startswith("PC login:") or s.startswith("Itris:") or s.startswith("Telephone and DDI:"):
              out.append(f"<b><u>{escape_html(s)}</u></b><br/>")
          else:
              out.append(f"{escape_html(s)}<br/>")
      return "".join(out)
  \<close>
  \<open>fragment_loop out lines\<close> is the loop, started at the list \<open>out\<close> built so far.
\<close>

fun fragment_loop :: "str list \<Rightarrow> str list \<Rightarrow> str list" where
  "fragment_loop out [] = out"
| "fragment_loop out (raw # lines) =
     (let s = rstrip_nl raw in
      if s = [] then fragment_loop (out @ [''<br/>'']) lines
      else if startswith s ''PC login:'' \<or> startswith s ''Itris:''
              \<or> startswith s ''Telephone and DDI:''
      then fragment_loop (out @ [''<b><u>'' @ escape_html s @ ''</u></b><br/>'']) lines
      else fragment_loop (out @ [escape_html s @ ''<br/>'']) lines)"

definition format_html_lines_for_fragment :: "str list \<Rightarrow> str" where
  "format_html_lines_for_fragment lines = concat (fragment_loop [] lines)"

text \<open>
  The rule of the encoder for one character and for one line, written out: what
  \<open>escape_html\<close> and one round of the loop are proved to compute.
\<close>

definition escape_char :: "char \<Rightarrow> str" where
  "escape_char c =
     (if c = CHR ''&'' then ''&amp;'' else if c = CHR ''<'' then ''&lt;''
      else if c = CHR ''>'' then ''&gt;'' else if c = DQUOTE then ''&quot;''
      else if c = SQUOTE then ''&#x27;'' else [c])"

definition encode_line :: "str \<Rightarrow> str" where
  "encode_line raw =
     (let s = rstrip_nl raw in
      if s = [] then ''<br/>''
      else if startswith s ''PC login:'' \<or> startswith s ''Itris:''
              \<or> startswith s ''Telephone and DDI:''
      then ''<b><u>'' @ concat (map escape_char s) @ ''</u></b><br/>''
      else concat (map escape_char s) @ ''<br/>'')"

section \<open>Clipboard container builder\<close>

text \<open>
  \<open>s.encode('utf-8')\<close> on code points below 256: one byte below 128, two bytes from
  128 on.
\<close>

definition utf8_char :: "char \<Rightarrow> bytes" where
  "utf8_char c =
     (let n = of_char c :: nat
      in if n < 128 then [c] else [char_of (192 + n div 64), char_of (128 + n mod 64)])"

definition utf8_encode :: "str \<Rightarrow> bytes" where
  "utf8_encode s = concat (map utf8_char s)"

text \<open>
  \<open>b"%08d" % n\<close>: the decimal digits of \<open>n\<close>, filled with zeros on the left up to a
  width of eight characters (the sign included). Eight is a minimum: a longer number is
  printed in full.
\<close>

fun digits :: "nat \<Rightarrow> string" where
  "digits n = (if n < 10 then [char_of (48 + n)] else digits (n div 10) @ [char_of (48 + n mod 10)])"

declare digits.simps [simp del]

definition zfill :: "nat \<Rightarrow> string \<Rightarrow> string" where
  "zfill w s = replicate (w - length s) (CHR ''0'') @ s"

definition fmt_08d :: "int \<Rightarrow> bytes" where
  "fmt_08d n = (if n < 0 then CHR ''-'' # zfill 7 (digits (nat (- n))) else zfill 8 (digits (nat n)))"

text \<open>
  \<^verbatim>\<open>
  header_template = b"Version:0.9\r\nStartHTML:%08d\r\nEndHTML:%08d\r\nStartFragment:%08d\r\nEndFragment:%08d\r\n"
  \<close>
  applied to four numbers.
\<close>

definition header_template :: "int \<Rightarrow> int \<Rightarrow> int \<Rightarrow> int \<Rightarrow> bytes" where
  "header_template a b c d =
     ''Version:0.9'' @ [CR, LF] @ ''StartHTML:'' @ fmt_08d a @ [CR, LF]
     @ ''EndHTML:'' @ fmt_08d b @ [CR, LF] @ ''StartFragment:'' @ fmt_08d c @ [CR, LF]
     @ ''EndFragment:'' @ fmt_08d d @ [CR, LF]"

text \<open>
  \<open>s.find(sub)\<close>: the index of the first occurrence of \<open>sub\<close> in \<open>s\<close>, or \<open>-1\<close>.
\<close>

fun find_from :: "nat \<Rightarrow> 'a list \<Rightarrow> 'a list \<Rightarrow> int" where
  "find_from i [] sub = (if sub = [] then int i else - 1)"
| "find_from i (x # xs) sub =
     (if startswith (x # xs) sub then int i else find_from (Suc i) xs sub)"

definition py_find :: "'a list \<Rightarrow> 'a list \<Rightarrow> int" where
  "py_find s sub = find_from 0 s sub"

text \<open>
  \<open>s[a:b]\<close>: a negative index counts from the end, and both indices are clamped to the
  sequence.
\<close>

definition py_slice :: "'a list \<Rightarrow> int \<Rightarrow> int \<Rightarrow> 'a list" where
  "py_slice s a b =
     (let n = int (length s);
          clamp = (\<lambda>i. if i < 0 then max 0 (n + i) else min i n)
      in take (nat (clamp b - clamp a)) (drop (nat (clamp a)) s))"

text \<open>
  The argument of the builder is a \<open>str\<close>, which it encodes, or a \<open>bytes\<close> object, which
  it takes as it is.
  \<^verbatim>\<open>
  def _make_cf_html_bytes(fragment_html: str) -> bytes:
      if isinstance(fragment_html, str):
          fragment_bytes = fragment_html.encode('utf-8')
      else:
          fragment_bytes = fragment_html
      start_fragment_marker = b"<!--StartFragment-->"
      end_fragment_marker = b"<!--EndFragment-->"
      html_body = b"<html><body>" + start_fragment_marker + fragment_bytes + end_fragment_marker + b"</body></html>"
      header_len = len(header_template % (0,0,0,0))
      start_html = header_len
      start_fragment = start_html + html_body.find(start_fragment_marker) + len(start_fragment_marker)
      end_fragment = start_html + html_body.find(end_fragment_marker)
      end_html = start_html + len(html_body)
      full = header_template % (start_html, end_html, start_fragment, end_fragment) + html_body
      return full
  \<close>
\<close>

datatype fragment_arg = Str str | Bytes bytes

definition start_fragment_marker :: bytes where
  "start_fragment_marker = ''<!--StartFragment-->''"

definition end_fragment_marker :: bytes where
  "end_fragment_marker = ''<!--EndFragment-->''"

definition html_body_of :: "bytes \<Rightarrow> bytes" where
  "html_body_of fragment_bytes =
     ''<html><body>'' @ start_fragment_marker @ fragment_bytes @ end_fragment_marker
     @ ''</body></html>''"

definition make_cf_html_bytes :: "fragment_arg \<Rightarrow> bytes" where
  "make_cf_html_bytes fragment_html =
     (let fragment_bytes = (case fragment_html of Str s \<Rightarrow> utf8_encode s | Bytes b \<Rightarrow> b);
          html_body = html_body_of fragment_bytes;
          header_len = int (length (header_template 0 0 0 0));
          start_html = header_len;
          start_fragment = start_html + py_find html_body start_fragment_marker
                           + int (length start_fragment_marker);
          end_fragment = start_html + py_find html_body end_fragment_marker;
          end_html = start_html + int (length html_body)
      in header_template start_html end_html start_fragment end_fragment @ html_body)"

text \<open>
  No \<open><\<close> of a byte sequence is followed by \<open>!\<close>, and the sequence does not end in
  \<open><\<close>. The fragments of the markup encoder are proved to be of this kind, which keeps
  the end marker out of them.
\<close>

fun tag_safe :: "bytes \<Rightarrow> bool" where
  "tag_safe [] = True"
| "tag_safe [c] = (c \<noteq> CHR ''<'')"
| "tag_safe (c # d # ds) = ((c \<noteq> CHR ''<'' \<or> d \<noteq> CHR ''!'') \<and> tag_safe (d # ds))"

section \<open>Records\<close>

text \<open>
  The exceptions the modelled code raises. \<open>CsvError\<close> is \<open>_csv.Error\<close> with its two
  messages that the default dialect can produce; \<open>ClipboardError\<close> is the exception of
  a failed call of \<open>win32clipboard\<close>.
\<close>

datatype csv_problem = FieldLargerThanLimit | NewLineInUnquotedField

datatype error =
    AttributeError
  | ValueError
  | TypeError
  | OSError
  | JSONDecodeError
  | UnicodeDecodeError
  | CsvError csv_problem
  | RuntimeError str
  | ImportError
  | ClipboardError

text \<open>
  A record is a Python \<open>dict\<close>. The dicts of this program are the literals of
  \<open>save_new\<close> and \<open>update_record\<close>, whose values are strings, and the rows of
  \<open>csv.DictReader\<close>, which maps a column name to a string, or to \<open>None\<close> where the
  row is shorter than the header, and the key \<open>None\<close> to the list of the cells beyond
  the header where it is longer. \<open>items\<close> holds the entries under string keys,
  \<open>restkey\<close> the entry under \<open>None\<close>.
\<close>

datatype pyval = PyNone | PyStr str

record pydict =
  items :: "(str, pyval) fmap"
  restkey :: "str list option"

definition FIELDS :: "str list" where
  "FIELDS = [''full_name'', ''username'', ''password'', ''pc_name'', ''ext'', ''ddi'', ''email'']"

text \<open>\<open>d.get(key, default)\<close>, the truth value of an object, and \<open>str(v)\<close>.\<close>

definition dict_get :: "pydict \<Rightarrow> str \<Rightarrow> pyval \<Rightarrow> pyval" where
  "dict_get d key dflt = (case fmlookup (items d) key of None \<Rightarrow> dflt | Some v \<Rightarrow> v)"

fun truthy :: "pyval \<Rightarrow> bool" where
  "truthy PyNone = False"
| "truthy (PyStr s) = (s \<noteq> [])"

fun py_str :: "pyval \<Rightarrow> str" where
  "py_str PyNone = ''None''"
| "py_str (PyStr s) = s"

section \<open>Formatter\<close>

text \<open>
  \<^verbatim>\<open>
  def format_email_text(rec: dict) -> str:
      username = rec.get('username') or make_username(rec.get('full_name',''))
      display_user = username
      text = f"""Hi,

  Please see below for {rec.get('full_name','')}'s login details.

  PC login:
  PC Name: {rec.get('pc_name','')}
  Username: {display_user}
  Password: {rec.get('password','')}

  Itris:
  Username: {display_user}
  Password: {rec.get('password','')}

  Telephone and DDI:
  Ext: {rec.get('ext','')}
  DDI: {rec.get('ddi','')}

  Thanks,
  """
      return text
  \<close>
  \<open>make_username\<close> calls \<open>strip\<close> on its argument, which raises \<open>AttributeError\<close> on
  \<open>None\<close>. A replacement field of an f-string is the \<open>str\<close> of its value.
\<close>

definition make_username_of :: "pyval \<Rightarrow> error + pyval" where
  "make_username_of v =
     (case v of PyNone \<Rightarrow> Inl AttributeError | PyStr s \<Rightarrow> Inr (PyStr (make_username s)))"

definition format_email_text :: "pydict \<Rightarrow> error + str" where
  "format_email_text rec =
     (case (if truthy (dict_get rec ''username'' PyNone)
            then Inr (dict_get rec ''username'' PyNone)
            else make_username_of (dict_get rec ''full_name'' (PyStr [])))
      of Inl e \<Rightarrow> Inl e
       | Inr username \<Rightarrow>
           (let display_user = username in
            Inr (''Hi,'' @ [LF] @ [LF]
              @ ''Please see below for '' @ py_str (dict_get rec ''full_name'' (PyStr []))
              @ [SQUOTE] @ ''s login details.'' @ [LF] @ [LF]
              @ ''PC login:'' @ [LF]
              @ ''PC Name: '' @ py_str (dict_get rec ''pc_name'' (PyStr [])) @ [LF]
              @ ''Username: '' @ py_str display_user @ [LF]
              @ ''Password: '' @ py_str (dict_get rec ''password'' (PyStr [])) @ [LF] @ [LF]
              @ ''Itris:'' @ [LF]
              @ ''Username: '' @ py_str display_user @ [LF]
              @ ''Password: '' @ py_str (dict_get rec ''password'' (PyStr [])) @ [LF] @ [LF]
              @ ''Telephone and DDI:'' @ [LF]
              @ ''Ext: '' @ py_str (dict_get rec ''ext'' (PyStr [])) @ [LF]
              @ ''DDI: '' @ py_str (dict_get rec ''ddi'' (PyStr [])) @ [LF] @ [LF]
              @ ''Thanks,'' @ [LF])))"

text \<open>
  A field as the callers read it, \<open>rec.get(key, '')\<close>, printed.
\<close>

definition field_or_empty :: "pydict \<Rightarrow> str \<Rightarrow> str" where
  "field_or_empty rec key = py_str (dict_get rec key (PyStr []))"

text \<open>
  A record as the specification has it: exactly the seven fields, each a string. The
  values of a record in the order of the columns.
\<close>

definition is_record :: "pydict \<Rightarrow> bool" where
  "is_record rec =
     (restkey rec = None \<and> fmdom' (items rec) \<subseteq> set FIELDS
      \<and> list_all (\<lambda>key. case fmlookup (items rec) key of Some (PyStr s) \<Rightarrow> True | _ \<Rightarrow> False)
           FIELDS)"

definition record_values :: "pydict \<Rightarrow> str list" where
  "record_values rec = map (field_or_empty rec) FIELDS"

section \<open>The tabular encoding: the csv module\<close>

text \<open>
  The store reads and writes its file with \<open>csv.DictReader\<close> and \<open>csv.DictWriter\<close> of
  the standard library in their default dialect \<open>excel\<close>: delimiter comma, quote
  character \<open>"\<close>, a quote inside a quoted field doubled, no escape character, line
  terminator CR LF, minimal quoting, not strict. The definitions follow the
  implementation in CPython (\<open>Modules/_csv.c\<close>, \<open>Lib/csv.py\<close>) for that dialect, as
  of version 3.11, from which on the reader takes a NUL character as any other; the
  states of its parser that only an escape character reaches are left out.
\<close>

subsection \<open>Writing\<close>

text \<open>
  \<open>join_append\<close>: a field is quoted when it holds the delimiter, the quote character or a
  character of the line terminator, and then each quote character in it is doubled.
\<close>

definition needs_quote :: "str \<Rightarrow> bool" where
  "needs_quote f = list_ex (\<lambda>c. c = CHR '','' \<or> c = DQUOTE \<or> c = CR \<or> c = LF) f"

fun quote_data :: "str \<Rightarrow> str" where
  "quote_data [] = []"
| "quote_data (c # cs) = (if c = DQUOTE then [DQUOTE, DQUOTE] else [c]) @ quote_data cs"

definition join_append :: "str \<Rightarrow> str" where
  "join_append f = (if needs_quote f then [DQUOTE] @ quote_data f @ [DQUOTE] else f)"

text \<open>
  \<open>writer.writerow(row)\<close>: the fields joined by the delimiter, then the line terminator.
  A row of one empty field is written as a pair of quotes.
\<close>

definition writerow :: "str list \<Rightarrow> str" where
  "writerow row =
     (let rec = str_join '','' (map join_append row)
      in (if row \<noteq> [] \<and> rec = [] then [DQUOTE, DQUOTE] else rec) @ [CR, LF])"

text \<open>
  \<open>DictWriter._dict_to_list\<close> with \<open>extrasaction='raise'\<close> and \<open>restval=''\<close>: a key
  outside the field names raises \<open>ValueError\<close>; a missing key is written as the empty
  string, and so is \<open>None\<close>.
  \<^verbatim>\<open>
  wrong_fields = rowdict.keys() - self.fieldnames
  if wrong_fields:
      raise ValueError(...)
  return (rowdict.get(key, self.restval) for key in self.fieldnames)
  \<close>
\<close>

fun field_text :: "pyval \<Rightarrow> str" where
  "field_text PyNone = []"
| "field_text (PyStr s) = s"

definition dict_to_list :: "pydict \<Rightarrow> error + str list" where
  "dict_to_list rowdict =
     (if \<not> fmdom' (items rowdict) \<subseteq> set FIELDS \<or> restkey rowdict \<noteq> None
      then Inl ValueError
      else Inr (map (\<lambda>key. field_text (dict_get rowdict key (PyStr []))) FIELDS))"

text \<open>
  \<open>writer.writeheader()\<close> followed by \<open>writer.writerows(records)\<close>, as the text that
  reaches the file and the exception that ends it, if any: the rows before a record that
  raises have been written.
\<close>

fun writerows :: "pydict list \<Rightarrow> error option \<times> str" where
  "writerows [] = (None, [])"
| "writerows (d # ds) =
     (case dict_to_list d of
        Inl e \<Rightarrow> (Some e, [])
      | Inr row \<Rightarrow> (case writerows ds of (e, text) \<Rightarrow> (e, writerow row @ text)))"

definition write_table :: "pydict list \<Rightarrow> error option \<times> str" where
  "write_table records =
     (case writerows records of (e, text) \<Rightarrow> (e, writerow FIELDS @ text))"

subsection \<open>Reading\<close>

text \<open>
  A file opened with \<open>newline=''\<close> is iterated line by line, a line ending after a line
  feed, after a carriage return that no line feed follows, or at the end of the text; the
  line keeps its ending. \<open>lines_loop cur rest\<close> scans \<open>rest\<close> with the line \<open>cur\<close>
  under construction.
\<close>

fun lines_loop :: "str \<Rightarrow> str \<Rightarrow> str list" where
  "lines_loop cur [] = (if cur = [] then [] else [cur])"
| "lines_loop cur [c] = [cur @ [c]]"
| "lines_loop cur (c # d # ds) =
     (if c = LF then (cur @ [c]) # lines_loop [] (d # ds)
      else if c = CR then
        (if d = LF then (cur @ [c, d]) # lines_loop [] ds
         else (cur @ [c]) # lines_loop [] (d # ds))
      else lines_loop (cur @ [c]) (d # ds))"

definition readlines :: "str \<Rightarrow> str list" where
  "readlines text = lines_loop [] text"

text \<open>
  The parser of \<open>csv.reader\<close>: its state, the field under construction and the fields
  of the record so far (\<open>state\<close>, \<open>field\<close> and \<open>fields\<close> in the C code). \<open>field_limit\<close> is \<open>csv.field_size_limit()\<close>, 128 * 1024 unless
  the program changes it, which this one does not.
\<close>

datatype parser_state =
  START_RECORD | START_FIELD | IN_FIELD | IN_QUOTED_FIELD | QUOTE_IN_QUOTED_FIELD | EAT_CRNL

record reader =
  pstate :: parser_state
  pfield :: str
  pfields :: "str list"

definition field_limit :: nat where
  "field_limit = 131072"

definition parse_reset :: reader where
  "parse_reset = \<lparr>pstate = START_RECORD, pfield = [], pfields = []\<rparr>"

definition parse_save_field :: "reader \<Rightarrow> reader" where
  "parse_save_field rd = rd\<lparr>pfields := pfields rd @ [pfield rd], pfield := []\<rparr>"

definition parse_add_char :: "reader \<Rightarrow> char \<Rightarrow> error + reader" where
  "parse_add_char rd c =
     (if length (pfield rd) \<ge> field_limit then Inl (CsvError FieldLargerThanLimit)
      else Inr (rd\<lparr>pfield := pfield rd @ [c]\<rparr>))"

text \<open>
  \<open>parse_process_char\<close>: one step of the parser, on a character or on the end of a line
  (\<open>None\<close>, the \<open>EOL\<close> of the C code). \<open>start_field\<close> is the case \<open>START_FIELD\<close>, which
  the case \<open>START_RECORD\<close> falls through to.
\<close>

definition end_of_line :: "char option \<Rightarrow> bool" where
  "end_of_line c = (c = Some LF \<or> c = Some CR \<or> c = None)"

definition after_line :: "char option \<Rightarrow> parser_state" where
  "after_line c = (if c = None then START_RECORD else EAT_CRNL)"

definition start_field :: "reader \<Rightarrow> char option \<Rightarrow> error + reader" where
  "start_field rd c =
     (if end_of_line c then Inr ((parse_save_field rd)\<lparr>pstate := after_line c\<rparr>)
      else if c = Some DQUOTE then Inr (rd\<lparr>pstate := IN_QUOTED_FIELD\<rparr>)
      else if c = Some (CHR '','') then Inr (parse_save_field rd)
      else (case parse_add_char rd (the c) of
              Inl e \<Rightarrow> Inl e
            | Inr rd' \<Rightarrow> Inr (rd'\<lparr>pstate := IN_FIELD\<rparr>)))"

definition parse_process_char :: "reader \<Rightarrow> char option \<Rightarrow> error + reader" where
  "parse_process_char rd c =
     (case pstate rd of
        START_RECORD \<Rightarrow>
          (if c = None then Inr rd
           else if c = Some LF \<or> c = Some CR then Inr (rd\<lparr>pstate := EAT_CRNL\<rparr>)
           else start_field (rd\<lparr>pstate := START_FIELD\<rparr>) c)
      | START_FIELD \<Rightarrow> start_field rd c
      | IN_FIELD \<Rightarrow>
          (if end_of_line c then Inr ((parse_save_field rd)\<lparr>pstate := after_line c\<rparr>)
           else if c = Some (CHR '','') then Inr ((parse_save_field rd)\<lparr>pstate := START_FIELD\<rparr>)
           else parse_add_char rd (the c))
      | IN_QUOTED_FIELD \<Rightarrow>
          (if c = None then Inr rd
           else if c = Some DQUOTE then Inr (rd\<lparr>pstate := QUOTE_IN_QUOTED_FIELD\<rparr>)
           else parse_add_char rd (the c))
      | QUOTE_IN_QUOTED_FIELD \<Rightarrow>
          (if c = Some DQUOTE then
             (case parse_add_char rd DQUOTE of
                Inl e \<Rightarrow> Inl e
              | Inr rd' \<Rightarrow> Inr (rd'\<lparr>pstate := IN_QUOTED_FIELD\<rparr>))
           else if c = Some (CHR '','') then Inr ((parse_save_field rd)\<lparr>pstate := START_FIELD\<rparr>)
           else if end_of_line c then Inr ((parse_save_field rd)\<lparr>pstate := after_line c\<rparr>)
           else (case parse_add_char rd (the c) of
                   Inl e \<Rightarrow> Inl e
                 | Inr rd' \<Rightarrow> Inr (rd'\<lparr>pstate := IN_FIELD\<rparr>)))
      | EAT_CRNL \<Rightarrow>
          (if c = Some LF \<or> c = Some CR then Inr rd
           else if c = None then Inr (rd\<lparr>pstate := START_RECORD\<rparr>)
           else Inl (CsvError NewLineInUnquotedField)))"

text \<open>One line: its characters, then the end of the line.\<close>

fun parse_chars :: "reader \<Rightarrow> str \<Rightarrow> error + reader" where
  "parse_chars rd [] = Inr rd"
| "parse_chars rd (c # cs) =
     (case parse_process_char rd (Some c) of Inl e \<Rightarrow> Inl e | Inr rd' \<Rightarrow> parse_chars rd' cs)"

definition parse_line :: "reader \<Rightarrow> str \<Rightarrow> error + reader" where
  "parse_line rd line =
     (case parse_chars rd line of Inl e \<Rightarrow> Inl e | Inr rd' \<Rightarrow> parse_process_char rd' None)"

text \<open>
  \<open>list(csv.reader(lines))\<close>. One call of the reader's \<open>__next__\<close> resets the parser and
  feeds it lines until it is back in \<open>START_RECORD\<close>, then returns the fields. At the end
  of the input inside a record (a quoted field left open) it returns what it has.
  \<open>reader_loop rd lines\<close> is the rest of the iteration from the parser \<open>rd\<close>.
\<close>

fun reader_loop :: "reader \<Rightarrow> str list \<Rightarrow> error + str list list" where
  "reader_loop rd [] =
     (if pfield rd \<noteq> [] \<or> pstate rd = IN_QUOTED_FIELD
      then Inr [pfields (parse_save_field rd)] else Inr [])"
| "reader_loop rd (line # lines) =
     (case parse_line rd line of
        Inl e \<Rightarrow> Inl e
      | Inr rd' \<Rightarrow>
          if pstate rd' \<noteq> START_RECORD then reader_loop rd' lines
          else (case reader_loop parse_reset lines of
                  Inl e \<Rightarrow> Inl e
                | Inr rows \<Rightarrow> Inr (pfields rd' # rows)))"

definition csv_reader :: "str list \<Rightarrow> error + str list list" where
  "csv_reader lines = reader_loop parse_reset lines"

text \<open>
  \<open>csv.DictReader\<close>: the first row gives the field names; every later row that is not
  empty becomes a dict.
  \<^verbatim>\<open>
  d = dict(zip(self.fieldnames, row))
  lf = len(self.fieldnames)
  lr = len(row)
  if lf < lr:
      d[self.restkey] = row[lf:]
  elif lf > lr:
      for key in self.fieldnames[lr:]:
          d[key] = self.restval
  \<close>
  with \<open>restkey\<close> and \<open>restval\<close> both \<open>None\<close>.
\<close>

fun dict_zip :: "(str, pyval) fmap \<Rightarrow> str list \<Rightarrow> str list \<Rightarrow> (str, pyval) fmap" where
  "dict_zip d (k # ks) (v # vs) = dict_zip (fmupd k (PyStr v) d) ks vs"
| "dict_zip d ks vs = d"

fun set_restval :: "(str, pyval) fmap \<Rightarrow> str list \<Rightarrow> (str, pyval) fmap" where
  "set_restval d [] = d"
| "set_restval d (key # keys) = set_restval (fmupd key PyNone d) keys"

definition dict_row :: "str list \<Rightarrow> str list \<Rightarrow> pydict" where
  "dict_row fieldnames row =
     (let d = dict_zip fmempty fieldnames row;
          lf = length fieldnames;
          lr = length row
      in if lf < lr then \<lparr>items = d, restkey = Some (drop lf row)\<rparr>
         else if lf > lr then \<lparr>items = set_restval d (drop lr fieldnames), restkey = None\<rparr>
         else \<lparr>items = d, restkey = None\<rparr>)"

fun dict_reader :: "str list list \<Rightarrow> pydict list" where
  "dict_reader [] = []"
| "dict_reader (fieldnames # rows) = map (dict_row fieldnames) (filter (\<lambda>row. row \<noteq> []) rows)"

section \<open>Store\<close>

text \<open>
  A path is its text as \<open>pathlib\<close> prints it, in the flavour of POSIX: the components
  separated by \<open>/\<close>, none of them empty or a single dot, and \<open>.\<close> for the path of no
  component. \<open>Path s\<close> is \<open>str(pathlib.Path(s))\<close>: one or more slashes in front are the
  root, which is \<open>//\<close> for exactly two of them and \<open>/\<close> otherwise. The flavour of
  Windows, with its drives and its second separator, is left out.
\<close>

type_synonym path = str

fun split_slash :: "str \<Rightarrow> str \<Rightarrow> str list" where
  "split_slash cur [] = [cur]"
| "split_slash cur (c # cs) =
     (if c = CHR ''/'' then cur # split_slash [] cs else split_slash (cur @ [c]) cs)"

definition Path :: "str \<Rightarrow> path" where
  "Path s =
     (let n = length (takeWhile (\<lambda>c. c = CHR ''/'') s);
          root = (if n = 0 then [] else if n = 2 then ''//'' else ''/'');
          parts = filter (\<lambda>x. x \<noteq> [] \<and> x \<noteq> ''.'') (split_slash [] (drop n s));
          p = root @ str_join ''/'' parts
      in if p = [] then ''.'' else p)"

text \<open>
  What a file holds is what reading it gives. A file whose bytes are the UTF-8 encoding
  of a text gives that text. Any other file gives the text of some lines and then the
  exception that ends the reading: \<open>UnicodeDecodeError\<close> where the bytes are not UTF-8,
  \<open>OSError\<close> from the operating system (and no text at all if the file cannot even be
  opened). The state of the world that the store touches is the content of the files and
  the global variable \<open>DB_FILE\<close>.
\<close>

datatype content = Text str | Broken str error

record world =
  files :: "path \<rightharpoonup> content"
  DB_FILE :: path

definition DEFAULT_DB :: path where
  "DEFAULT_DB = ''onboarding_db.csv''"

text \<open>
  \<open>PurePath.name\<close>, \<open>PurePath.suffix\<close> and \<open>PurePath.with_suffix\<close>. The name is the
  last component, and empty for a path that has none (\<open>.\<close>, or a root alone).
  \<^verbatim>\<open>
  def suffix(self):
      name = self.name
      i = name.rfind('.')
      if 0 < i < len(name) - 1:
          return name[i:]
      else:
          return ''

  def with_suffix(self, suffix):
      f = self._flavour
      if f.sep in suffix or f.altsep and f.altsep in suffix:
          raise ValueError("Invalid suffix %r" % (suffix,))
      if suffix and not suffix.startswith('.') or suffix == '.':
          raise ValueError("Invalid suffix %r" % (suffix))
      name = self.name
      if not name:
          raise ValueError("%r has an empty name" % (self,))
      old_suffix = self.suffix
      if not old_suffix:
          name = name + suffix
      else:
          name = name[:-len(old_suffix)] + suffix
      return ... the path with its name replaced ...
  \<close>
\<close>

definition path_name :: "path \<Rightarrow> str" where
  "path_name p = (if p = ''.'' then [] else rev (takeWhile (\<lambda>c. c \<noteq> CHR ''/'') (rev p)))"

definition path_dir :: "path \<Rightarrow> str" where
  "path_dir p = rev (dropWhile (\<lambda>c. c \<noteq> CHR ''/'') (rev p))"

definition name_suffix :: "str \<Rightarrow> str" where
  "name_suffix name =
     (let tail = rev (takeWhile (\<lambda>c. c \<noteq> CHR ''.'') (rev name))
      in if CHR ''.'' \<in> set name \<and> tail \<noteq> [] \<and> length tail + 1 < length name
         then CHR ''.'' # tail else [])"

definition with_suffix :: "path \<Rightarrow> str \<Rightarrow> error + path" where
  "with_suffix p suffix =
     (if CHR ''/'' \<in> set suffix \<or> (suffix \<noteq> [] \<and> \<not> startswith suffix ''.'') \<or> suffix = ''.''
      then Inl ValueError
      else
        let name = path_name p in
        if name = [] then Inl ValueError
        else let old_suffix = name_suffix name
             in Inr (path_dir p @ take (length name - length old_suffix) name @ suffix))"

text \<open>
  What the operating system does with a write is not the program's to decide: it
  completes, it raises \<open>OSError\<close> after some of the text has reached the file, or the
  file cannot be opened at all. \<open>os.replace\<close> succeeds or raises. These outcomes are
  parameters of \<open>save_records\<close>. What has reached the file is counted in characters:
  a write that breaks off inside the bytes of one character is left out. In
  \<open>ensure_db\<close> the test for existence and the creation of the header-only file are
  taken to succeed.
\<close>

datatype write_outcome = Completes | FailsAfter nat | CannotOpen

record io =
  tmp_write :: write_outcome
  replace_ok :: bool
  rewrite :: write_outcome

text \<open>
  \<^verbatim>\<open>
  def ensure_db(path: pathlib.Path):
      if not path.exists():
          path.parent.mkdir(parents=True, exist_ok=True)
          with path.open("w", newline="", encoding="utf-8") as f:
              writer = csv.DictWriter(f, FIELDS)
              writer.writeheader()
  \<close>
\<close>

definition ensure_db :: "path \<Rightarrow> world \<Rightarrow> world" where
  "ensure_db p w =
     (if files w p = None then w\<lparr>files := (files w)(p \<mapsto> Text (writerow FIELDS))\<rparr> else w)"

text \<open>
  \<^verbatim>\<open>
  with p.open("w", newline="", encoding="utf-8") as f:
      writer = csv.DictWriter(f, FIELDS)
      writer.writeheader()
      writer.writerows(records)
  \<close>
  Opening the file for writing empties it. The block ends with the exception of the
  operating system, if the write fails before all the text is out, and else with the
  exception of the writer, if there is one.
\<close>

definition write_csv :: "path \<Rightarrow> pydict list \<Rightarrow> write_outcome \<Rightarrow> world \<Rightarrow> (error + unit) \<times> world" where
  "write_csv p records outcome w =
     (case write_table records of (e, text) \<Rightarrow>
        (case outcome of
           CannotOpen \<Rightarrow> (Inl OSError, w)
         | FailsAfter n \<Rightarrow>
             if n < length text
             then (Inl OSError, w\<lparr>files := (files w)(p \<mapsto> Text (take n text))\<rparr>)
             else (case e of None \<Rightarrow> Inr () | Some x \<Rightarrow> Inl x,
                   w\<lparr>files := (files w)(p \<mapsto> Text text)\<rparr>)
         | Completes \<Rightarrow>
             (case e of None \<Rightarrow> Inr () | Some x \<Rightarrow> Inl x,
              w\<lparr>files := (files w)(p \<mapsto> Text text)\<rparr>)))"

text \<open>\<open>os.replace(src, dst)\<close> when it succeeds.\<close>

definition os_replace :: "path \<Rightarrow> path \<Rightarrow> world \<Rightarrow> world" where
  "os_replace src dst w =
     (if src = dst then w
      else w\<lparr>files := ((files w)(dst := files w src))(src := None)\<rparr>)"

text \<open>
  \<^verbatim>\<open>
  def load_records():
      ensure_db(DB_FILE)
      with DB_FILE.open("r", newline="", encoding="utf-8") as f:
          return list(csv.DictReader(f))
  \<close>
  The reader takes the lines one by one from the file. When the file ends the reading
  with an exception, the reader has parsed the lines before it, and the call ends with
  the exception of the reader if one of these lines raised it, and with that of the file
  otherwise.
\<close>

definition load_records :: "world \<Rightarrow> (error + pydict list) \<times> world" where
  "load_records w0 =
     (let w = ensure_db (DB_FILE w0) w0 in
      case files w (DB_FILE w) of
        None \<Rightarrow> (Inl OSError, w)
      | Some (Text text) \<Rightarrow>
          (case csv_reader (readlines text) of
             Inl e \<Rightarrow> (Inl e, w)
           | Inr rows \<Rightarrow> (Inr (dict_reader rows), w))
      | Some (Broken text x) \<Rightarrow>
          (case csv_reader (readlines text) of
             Inl e \<Rightarrow> (Inl e, w)
           | Inr rows \<Rightarrow> (Inl x, w)))"

text \<open>
  \<^verbatim>\<open>
  def save_records(records):
      ensure_db(DB_FILE)
      # atomic write: write to temp file then replace
      tmp = DB_FILE.with_suffix('.tmp')
      with tmp.open("w", newline="", encoding="utf-8") as f:
          writer = csv.DictWriter(f, FIELDS)
          writer.writeheader()
          writer.writerows(records)
      try:
          os.replace(tmp, DB_FILE)
      except Exception:
          # fallback to non-atomic if replace fails
          with DB_FILE.open("w", newline="", encoding="utf-8") as f:
              writer = csv.DictWriter(f, FIELDS)
              writer.writeheader()
              writer.writerows(records)
  \<close>
\<close>

definition save_records :: "io \<Rightarrow> pydict list \<Rightarrow> world \<Rightarrow> (error + unit) \<times> world" where
  "save_records os records w0 =
     (let w = ensure_db (DB_FILE w0) w0 in
      case with_suffix (DB_FILE w) ''.tmp'' of
        Inl e \<Rightarrow> (Inl e, w)
      | Inr tmp \<Rightarrow>
          (case write_csv tmp records (tmp_write os) w of
             (Inl e, w') \<Rightarrow> (Inl e, w')
           | (Inr u, w') \<Rightarrow>
               if replace_ok os then (Inr (), os_replace tmp (DB_FILE w') w')
               else write_csv (DB_FILE w') records (rewrite os) w'))"

section \<open>Save and update\<close>

text \<open>
  The five entry widgets of the form, and the two entry points that persist a record.
  What they do to the window (\<open>refresh_data\<close>, \<open>clear_form\<close>, the message boxes) is
  left out but for which message box, if any, ends the call.
  \<^verbatim>\<open>
  def save_new():
      full = ent_full.get().strip()
      pc = ent_pc.get().strip()
      pw = ent_pass.get().strip()
      ext = ent_ext.get().strip()
      ddi = ent_ddi.get().strip()
      if not (full and pc and pw):
          messagebox.showwarning('Missing fields', ...)
          return
      username = make_username(full)
      rec = {
          'full_name': full,
          'username': username,
          'password': pw,
          'pc_name': pc,
          'ext': ext,
          'ddi': ddi,
          'email': f'{username}@totalassist.co.uk',
      }
      recs = load_records()
      recs.insert(0, rec)
      save_records(recs)
      refresh_data()
      clear_form()
  \<close>
\<close>

record form =
  ent_full :: str
  ent_pc :: str
  ent_pass :: str
  ent_ext :: str
  ent_ddi :: str

datatype ended = Saved | MissingFields | NoSelection | InvalidIndex

definition form_record :: "str \<Rightarrow> str \<Rightarrow> str \<Rightarrow> str \<Rightarrow> str \<Rightarrow> pydict" where
  "form_record full pc pw ext ddi =
     (let username = make_username full in
      \<lparr>items = fmap_of_list
         [(''full_name'', PyStr full),
          (''username'', PyStr username),
          (''password'', PyStr pw),
          (''pc_name'', PyStr pc),
          (''ext'', PyStr ext),
          (''ddi'', PyStr ddi),
          (''email'', PyStr (username @ ''@totalassist.co.uk''))],
       restkey = None\<rparr>)"

definition save_new :: "io \<Rightarrow> form \<Rightarrow> world \<Rightarrow> (error + ended) \<times> world" where
  "save_new os f w =
     (let full = strip (ent_full f); pc = strip (ent_pc f); pw = strip (ent_pass f);
          ext = strip (ent_ext f); ddi = strip (ent_ddi f) in
      if \<not> (full \<noteq> [] \<and> pc \<noteq> [] \<and> pw \<noteq> []) then (Inr MissingFields, w)
      else
        let rec = form_record full pc pw ext ddi in
        case load_records w of
          (Inl e, w') \<Rightarrow> (Inl e, w')
        | (Inr recs, w') \<Rightarrow>
            (case save_records os (rec # recs) w' of
               (Inl e, w'') \<Rightarrow> (Inl e, w'')
             | (Inr u, w'') \<Rightarrow> (Inr Saved, w'')))"

text \<open>
  \<^verbatim>\<open>
  current_index = None
  def update_record():
      global current_index
      if current_index is None:
          messagebox.showwarning('No selection', ...)
          return
      ... the same five fields, the same check, the same rec ...
      recs = load_records()
      if 0 <= current_index < len(recs):
          recs[current_index] = rec
          save_records(recs)
          refresh_data()
          clear_form()
      else:
          messagebox.showerror('Update', 'Selected record index is invalid.')
  \<close>
  The global \<open>current_index\<close> is a parameter here.
\<close>

definition update_record :: "int option \<Rightarrow> io \<Rightarrow> form \<Rightarrow> world \<Rightarrow> (error + ended) \<times> world" where
  "update_record current_index os f w =
     (case current_index of
        None \<Rightarrow> (Inr NoSelection, w)
      | Some i \<Rightarrow>
          let full = strip (ent_full f); pc = strip (ent_pc f); pw = strip (ent_pass f);
              ext = strip (ent_ext f); ddi = strip (ent_ddi f) in
          if \<not> (full \<noteq> [] \<and> pc \<noteq> [] \<and> pw \<noteq> []) then (Inr MissingFields, w)
          else
            let rec = form_record full pc pw ext ddi in
            case load_records w of
              (Inl e, w') \<Rightarrow> (Inl e, w')
            | (Inr recs, w') \<Rightarrow>
                if 0 \<le> i \<and> i < int (length recs) then
                  (case save_records os (recs[nat i := rec]) w' of
                     (Inl e, w'') \<Rightarrow> (Inl e, w'')
                   | (Inr u, w'') \<Rightarrow> (Inr Saved, w''))
                else (Inr InvalidIndex, w'))"

section \<open>Configuration\<close>

text \<open>
  The settings store is the file \<open>~/.otm_config.json\<close>. What \<open>CONFIG_FILE.exists()\<close>,
  \<open>open\<close> and \<open>json.load\<close> make of it is one of five things: there is no file; one of
  the three raises \<open>OSError\<close>, so that it cannot be read; its bytes are not UTF-8; its
  text is not JSON; it holds a JSON value.
  \<^verbatim>\<open>
  def load_config():
      global DB_FILE
      try:
          if CONFIG_FILE.exists():
              with CONFIG_FILE.open('r', encoding='utf-8') as f:
                  data = json.load(f)
              p = data.get('db_path')
              if p:
                  p = pathlib.Path(p)
                  # If configured path exists and appears to be a file, use it
                  if p.exists():
                      DB_FILE = p
                  else:
                      # If configured path doesn't exist, fall back to default but keep config
                      DB_FILE = pathlib.Path(p)
          else:
              DB_FILE = DEFAULT_DB
      except Exception:
          # On any config error, fall back to default DB
          DB_FILE = DEFAULT_DB
  \<close>
  Only a JSON object has \<open>get\<close> (\<open>AttributeError\<close> otherwise), which gives the value
  of the last entry under the key, and only a string makes a \<open>Path\<close> (\<open>TypeError\<close>
  otherwise). Of a number only two things matter here, that it is no string and whether
  it is zero, so that an integer stands for it. Both branches of the test for existence
  assign the configured path, whatever the comment of the second says.
  \<open>try_load_config\<close> is the body of the \<open>try\<close>.
\<close>

datatype json =
  JNull | JBool bool | JNum int | JStr str | JArr "json list" | JObj "(str \<times> json) list"

datatype config_store = NoConfigFile | Unreadable | NotUtf8 | NotJson | Config json

fun json_truthy :: "json \<Rightarrow> bool" where
  "json_truthy JNull = False"
| "json_truthy (JBool b) = b"
| "json_truthy (JNum n) = (n \<noteq> 0)"
| "json_truthy (JStr s) = (s \<noteq> [])"
| "json_truthy (JArr xs) = (xs \<noteq> [])"
| "json_truthy (JObj kvs) = (kvs \<noteq> [])"

definition json_get :: "(str \<times> json) list \<Rightarrow> str \<Rightarrow> json" where
  "json_get kvs key = (case map_of (rev kvs) key of None \<Rightarrow> JNull | Some v \<Rightarrow> v)"

text \<open>
  \<open>Path.exists()\<close>, as of version 3.11 of \<open>pathlib\<close>, asks the operating system for
  the status of the file. It is \<open>False\<close> when the answer is that there is no such file,
  and it raises \<open>OSError\<close> on any other refusal: a name that is too long, a directory on
  the way that may not be searched. Which paths are refused is the operating system's to
  say, and a parameter here.
  \<^verbatim>\<open>
  def exists(self):
      try:
          self.stat()
      except OSError as e:
          if not _ignore_error(e):
              raise
          return False
      except ValueError:
          # Non-encodable path
          return False
      return True
  \<close>
\<close>

definition path_exists :: "(path \<Rightarrow> bool) \<Rightarrow> world \<Rightarrow> path \<Rightarrow> error + bool" where
  "path_exists refused w p = (if refused p then Inl OSError else Inr (files w p \<noteq> None))"

definition try_load_config :: "(path \<Rightarrow> bool) \<Rightarrow> config_store \<Rightarrow> world \<Rightarrow> error + world" where
  "try_load_config refused cfg w =
     (case cfg of
        NoConfigFile \<Rightarrow> Inr (w\<lparr>DB_FILE := DEFAULT_DB\<rparr>)
      | Unreadable \<Rightarrow> Inl OSError
      | NotUtf8 \<Rightarrow> Inl UnicodeDecodeError
      | NotJson \<Rightarrow> Inl JSONDecodeError
      | Config data \<Rightarrow>
          (case data of
             JObj kvs \<Rightarrow>
               (let p = json_get kvs ''db_path'' in
                if json_truthy p then
                  (case p of
                     JStr s \<Rightarrow>
                       (let p = Path s in
                        case path_exists refused w p of
                          Inl e \<Rightarrow> Inl e
                        | Inr found \<Rightarrow>
                            if found then Inr (w\<lparr>DB_FILE := p\<rparr>)
                            else Inr (w\<lparr>DB_FILE := p\<rparr>))
                   | _ \<Rightarrow> Inl TypeError)
                else Inr w)
           | _ \<Rightarrow> Inl AttributeError))"

definition load_config :: "(path \<Rightarrow> bool) \<Rightarrow> config_store \<Rightarrow> world \<Rightarrow> world" where
  "load_config refused cfg w =
     (case try_load_config refused cfg w of
        Inl e \<Rightarrow> w\<lparr>DB_FILE := DEFAULT_DB\<rparr>
      | Inr w' \<Rightarrow> w')"

text \<open>
  The module runs \<open>DB_FILE = DEFAULT_DB\<close> and then \<open>load_config()\<close> when it is loaded.
\<close>

definition startup :: "(path \<Rightarrow> bool) \<Rightarrow> config_store \<Rightarrow> world \<Rightarrow> world" where
  "startup refused cfg w = load_config refused cfg (w\<lparr>DB_FILE := DEFAULT_DB\<rparr>)"

section \<open>Clipboard transaction\<close>

text \<open>
  The system clipboard: whether it is open, the payloads installed in it, and the number
  of memory blocks that the program has allocated and neither freed nor handed over.
  The outcome of each call of the operating system is a parameter: \<open>win32\<close> for the
  calls made through \<open>ctypes\<close>, \<open>pywin32\<close> for those made through \<open>win32clipboard\<close>.
\<close>

datatype payload = HtmlFormat | UnicodeText

record clipboard =
  is_open :: bool
  contents :: "payload \<rightharpoonup> bytes"
  blocks :: nat

record win32 =
  OpenClipboard_ok :: bool
  EmptyClipboard_ok :: bool
  GlobalAlloc_html_ok :: bool
  GlobalLock_html_ok :: bool
  SetClipboardData_html_ok :: bool
  GlobalAlloc_text_ok :: bool
  GlobalLock_text_ok :: bool
  SetClipboardData_text_ok :: bool

record pywin32 =
  importable :: bool
  open_ok :: bool
  empty_ok :: bool
  set_html_ok :: bool
  set_text_ok :: bool

text \<open>\<open>s.encode('utf-16le')\<close> on code points below 256.\<close>

definition utf16le_encode :: "str \<Rightarrow> bytes" where
  "utf16le_encode s = concat (map (\<lambda>c. [c, CHR 0x00]) s)"

text \<open>
  \<^verbatim>\<open>
  def _set_clipboard_html_win32(html_fragment: str, plain_text: str = None):
      ...
      if not user32.OpenClipboard(0):
          raise RuntimeError("OpenClipboard failed")
      try:
          if not user32.EmptyClipboard():
              raise RuntimeError("EmptyClipboard failed")
          h_global_html = kernel32.GlobalAlloc(GMEM_MOVEABLE, len(data_cf_html) + 1)
          if not h_global_html:
              raise RuntimeError("GlobalAlloc failed for HTML")
          p_html = kernel32.GlobalLock(h_global_html)
          if not p_html:
              kernel32.GlobalFree(h_global_html)
              raise RuntimeError("GlobalLock failed for HTML")
          ctypes.memmove(p_html, data_cf_html, len(data_cf_html))
          kernel32.GlobalUnlock(h_global_html)
          if not user32.SetClipboardData(reg_html, h_global_html):
              kernel32.GlobalFree(h_global_html)
              raise RuntimeError("SetClipboardData failed for HTML")
          h_global_txt = kernel32.GlobalAlloc(GMEM_MOVEABLE, len(data_unicode) + 2)
          if not h_global_txt:
              raise RuntimeError("GlobalAlloc failed for text")
          p_txt = kernel32.GlobalLock(h_global_txt)
          if not p_txt:
              kernel32.GlobalFree(h_global_txt)
              raise RuntimeError("GlobalLock failed for text")
          ctypes.memmove(p_txt, data_unicode, len(data_unicode))
          ctypes.memmove(p_txt + len(data_unicode), b'\x00\x00', 2)
          kernel32.GlobalUnlock(h_global_txt)
          if not user32.SetClipboardData(CF_UNICODETEXT, h_global_txt):
              kernel32.GlobalFree(h_global_txt)
              raise RuntimeError("SetClipboardData failed for text")
      finally:
          user32.CloseClipboard()
  \<close>
  Every caller passes \<open>plain_text\<close>, so it is a string here. \<open>win32_populate\<close> is the
  body of the \<open>try\<close>; \<open>install\<close> is one payload's allocation, lock and transfer.
\<close>

definition install ::
  "payload \<Rightarrow> bytes \<Rightarrow> bool \<Rightarrow> bool \<Rightarrow> bool \<Rightarrow> str \<Rightarrow> clipboard \<Rightarrow> (error + unit) \<times> clipboard" where
  "install fmt data alloc_ok lock_ok set_ok what c =
     (if \<not> alloc_ok then (Inl (RuntimeError (''GlobalAlloc failed for '' @ what)), c)
      else let c1 = c\<lparr>blocks := blocks c + 1\<rparr> in
        if \<not> lock_ok
        then (Inl (RuntimeError (''GlobalLock failed for '' @ what)), c1\<lparr>blocks := blocks c1 - 1\<rparr>)
        else if \<not> set_ok
        then (Inl (RuntimeError (''SetClipboardData failed for '' @ what)),
              c1\<lparr>blocks := blocks c1 - 1\<rparr>)
        else (Inr (), c1\<lparr>blocks := blocks c1 - 1, contents := (contents c1)(fmt \<mapsto> data)\<rparr>))"

definition win32_populate :: "win32 \<Rightarrow> str \<Rightarrow> str \<Rightarrow> clipboard \<Rightarrow> (error + unit) \<times> clipboard" where
  "win32_populate os html_fragment plain_text c =
     (if \<not> EmptyClipboard_ok os then (Inl (RuntimeError ''EmptyClipboard failed''), c)
      else
        case install HtmlFormat (make_cf_html_bytes (Str html_fragment))
               (GlobalAlloc_html_ok os) (GlobalLock_html_ok os) (SetClipboardData_html_ok os)
               ''HTML'' (c\<lparr>contents := Map.empty\<rparr>) of
          (Inl e, c') \<Rightarrow> (Inl e, c')
        | (Inr u, c') \<Rightarrow>
            install UnicodeText (utf16le_encode plain_text @ [CHR 0x00, CHR 0x00])
              (GlobalAlloc_text_ok os) (GlobalLock_text_ok os) (SetClipboardData_text_ok os)
              ''text'' c')"

definition CloseClipboard :: "clipboard \<Rightarrow> clipboard" where
  "CloseClipboard c = c\<lparr>is_open := False\<rparr>"

definition set_clipboard_html_win32 ::
  "win32 \<Rightarrow> str \<Rightarrow> str \<Rightarrow> clipboard \<Rightarrow> (error + unit) \<times> clipboard" where
  "set_clipboard_html_win32 os html_fragment plain_text c =
     (if \<not> OpenClipboard_ok os then (Inl (RuntimeError ''OpenClipboard failed''), c)
      else case win32_populate os html_fragment plain_text (c\<lparr>is_open := True\<rparr>) of
             (r, c') \<Rightarrow> (r, CloseClipboard c'))"

text \<open>
  \<^verbatim>\<open>
  def set_html_clipboard_fragment(html_fragment: str, plain_text: str = None):
      if sys.platform.startswith("win"):
          try:
              # try pywin32 if present
              import win32clipboard, win32con  # type: ignore
              win32clipboard.OpenClipboard()
              win32clipboard.EmptyClipboard()
              cf_html = win32clipboard.RegisterClipboardFormat("HTML Format")
              data = _make_cf_html_bytes(html_fragment)
              win32clipboard.SetClipboardData(cf_html, data)
              plain = strip_tags(html_fragment) if plain_text is None else plain_text
              win32clipboard.SetClipboardData(win32con.CF_UNICODETEXT, plain)
              win32clipboard.CloseClipboard()
              return
          except Exception:
              try:
                  _set_clipboard_html_win32(html_fragment, plain_text)
                  return
              except Exception:
                  pass
      # fallback: regular plain text via Tk clipboard (non-windows or failure)
      try:
          root.clipboard_clear()
          root.clipboard_append(strip_tags(html_fragment) if plain_text is None else plain_text)
      except Exception:
          pass
  \<close>
  \<open>pywin32_transaction\<close> is the body of the outer \<open>try\<close>. The clipboard of Tk is not
  the subject here: the fallback leaves the state as it finds it, and the result says
  which of the three ways ended the call.
\<close>

datatype way = ByPywin32 | ByCtypes | ByTk

definition pywin32_transaction ::
  "pywin32 \<Rightarrow> str \<Rightarrow> str \<Rightarrow> clipboard \<Rightarrow> (error + unit) \<times> clipboard" where
  "pywin32_transaction py html_fragment plain_text c =
     (if \<not> importable py then (Inl ImportError, c)
      else if \<not> open_ok py then (Inl ClipboardError, c)
      else let c1 = c\<lparr>is_open := True\<rparr> in
        if \<not> empty_ok py then (Inl ClipboardError, c1)
        else let c2 = c1\<lparr>contents := Map.empty\<rparr> in
          if \<not> set_html_ok py then (Inl ClipboardError, c2)
          else let c3 = c2\<lparr>contents :=
                          (contents c2)(HtmlFormat \<mapsto> make_cf_html_bytes (Str html_fragment))\<rparr> in
            if \<not> set_text_ok py then (Inl ClipboardError, c3)
            else (Inr (), CloseClipboard
                   (c3\<lparr>contents := (contents c3)(UnicodeText \<mapsto> utf16le_encode plain_text)\<rparr>)))"

definition set_html_clipboard_fragment ::
  "bool \<Rightarrow> pywin32 \<Rightarrow> win32 \<Rightarrow> str \<Rightarrow> str \<Rightarrow> clipboard \<Rightarrow> way \<times> clipboard" where
  "set_html_clipboard_fragment on_windows py os html_fragment plain_text c =
     (if on_windows then
        (case pywin32_transaction py html_fragment plain_text c of
           (Inr u, c') \<Rightarrow> (ByPywin32, c')
         | (Inl e, c') \<Rightarrow>
             (case set_clipboard_html_win32 os html_fragment plain_text c' of
                (Inr u, c'') \<Rightarrow> (ByCtypes, c'')
              | (Inl e', c'') \<Rightarrow> (ByTk, c'')))
      else (ByTk, c))"

text \<open>
  The invariant of a record at the moment it is persisted, in the words of the
  specification: name, machine and password are strings that are not empty and neither
  begin nor end with whitespace, and the two derived fields obey their equations.
\<close>

definition stripped_nonempty :: "str \<Rightarrow> bool" where
  "stripped_nonempty s = (s \<noteq> [] \<and> \<not> isspace (hd s) \<and> \<not> isspace (last s))"

definition persisted_ok :: "pydict \<Rightarrow> bool" where
  "persisted_ok rec =
     (case (fmlookup (items rec) ''full_name'', fmlookup (items rec) ''pc_name'',
            fmlookup (items rec) ''password'', fmlookup (items rec) ''username'',
            fmlookup (items rec) ''email'') of
        (Some (PyStr full), Some (PyStr pc), Some (PyStr pw), Some (PyStr u), Some (PyStr e)) \<Rightarrow>
          stripped_nonempty full \<and> stripped_nonempty pc \<and> stripped_nonempty pw
          \<and> u = make_username full \<and> e = u @ ''@totalassist.co.uk''
      | _ \<Rightarrow> False)"

section \<open>Notions for the proofs about reading\<close>

text \<open>
  The reader sees a file as a sequence of events: a character, or the end of a line
  (\<open>None\<close>). \<open>events p text\<close> is that sequence for the rest \<open>text\<close> of a file, where \<open>p\<close>
  says whether the rest begins a line, continues one, or follows a carriage return whose
  line is not known to have ended yet. \<open>feed rd es\<close> is \<open>reader_loop\<close> on events instead
  of lines. Both are proved equal to what they restate (\<open>reader_loop_feed\<close>,
  \<open>events_lines_loop\<close>); no claim is stated in their terms.
\<close>

datatype line_pos = AtStart | InLine | AfterCR

fun events :: "line_pos \<Rightarrow> str \<Rightarrow> char option list" where
  "events p [] = (if p = AtStart then [] else [None])"
| "events p (c # cs) =
     (if c = LF then [Some c, None] @ events AtStart cs
      else (if p = AfterCR then [None] else [])
           @ Some c # events (if c = CR then AfterCR else InLine) cs)"

definition cons_row :: "str list \<Rightarrow> error + str list list \<Rightarrow> error + str list list" where
  "cons_row row res = (case res of Inl e \<Rightarrow> Inl e | Inr rows \<Rightarrow> Inr (row # rows))"

fun feed :: "reader \<Rightarrow> char option list \<Rightarrow> error + str list list" where
  "feed rd [] =
     (if pfield rd \<noteq> [] \<or> pstate rd = IN_QUOTED_FIELD
      then Inr [pfields (parse_save_field rd)] else Inr [])"
| "feed rd (e # es) =
     (case parse_process_char rd e of
        Inl x \<Rightarrow> Inl x
      | Inr rd' \<Rightarrow>
          if e = None \<and> pstate rd' = START_RECORD
          then cons_row (pfields rd') (feed parse_reset es)
          else feed rd' es)"

text \<open>
  \<open>outcome_ok b res\<close>: the result \<open>res\<close> of reading is a list of rows, or the error of
  the field limit, and not even that when \<open>b\<close> holds.
\<close>

definition outcome_ok :: "bool \<Rightarrow> error + str list list \<Rightarrow> bool" where
  "outcome_ok b res =
     (case res of Inr rows \<Rightarrow> True | Inl x \<Rightarrow> x = CsvError FieldLargerThanLimit \<and> \<not> b)"

text \<open>
  What holds of the parser all along: its field is within the limit, and it is empty
  where no field has been begun.
\<close>

definition reader_inv :: "reader \<Rightarrow> bool" where
  "reader_inv rd =
     (length (pfield rd) \<le> field_limit
      \<and> (pstate rd = START_RECORD \<or> pstate rd = START_FIELD \<or> pstate rd = EAT_CRNL
           \<longrightarrow> pfield rd = []))"

text \<open>
  The parser after the text of a field that it began in \<open>START_FIELD\<close>.
\<close>

definition after_field :: "reader \<Rightarrow> str \<Rightarrow> reader" where
  "after_field rd f =
     (if needs_quote f then rd\<lparr>pfield := f, pstate := QUOTE_IN_QUOTED_FIELD\<rparr>
      else if f = [] then rd
      else rd\<lparr>pfield := f, pstate := IN_FIELD\<rparr>)"

section \<open>Proofs: username derivation\<close>

lemma str_join_Nil [simp]: "str_join sep [] = []"
  by simp

lemma strip_unfold: "strip s = rev (dropWhile isspace (rev (dropWhile isspace s)))"
  by (simp add: strip_def strip_by_def)

lemma capitalize_Cons: "capitalize (c # cs) = title_or_same c @ map tolower cs"
proof -
  have n: "map (\<lambda>i. (c # cs) ! i) [1..<Suc (length cs)] = cs"
    by (simp add: map_Suc_upt [symmetric] o_def map_nth del: upt_Suc)
  have "map (\<lambda>i. tolower ((c # cs) ! i)) [1..<Suc (length cs)]
      = map tolower (map (\<lambda>i. (c # cs) ! i) [1..<Suc (length cs)])"
    by (simp add: o_def del: upt_Suc)
  also have "\<dots> = map tolower cs" by (simp only: n)
  finally have "concat (map (tolower_at (c # cs)) [1..<Suc (length cs)]) = map tolower cs"
    by (simp add: tolower_at_def [abs_def] concat_map_singleton del: upt_Suc)
  then show ?thesis by (simp add: capitalize_def capitalize_by_def del: upt_Suc)
qed

lemma split_loop_space_prefix:
  "list_all space g \<Longrightarrow> split_loop space [] (g @ s) = split_loop space [] s"
  by (induction g) simp_all

lemma split_loop_token_prefix:
  "list_all (\<lambda>c. \<not> space c) t \<Longrightarrow> split_loop space cur (t @ s) = split_loop space (cur @ t) s"
  by (induction t arbitrary: cur) simp_all

lemma split_loop_space_only:
  "list_all space g \<Longrightarrow> split_loop space cur g = (if cur = [] then [] else [cur])"
proof (induction g arbitrary: cur)
  case Nil
  show ?case by simp
next
  case (Cons c g)
  then have "split_loop space [] g = []" by simp
  with Cons.prems show ?case by simp
qed

lemma split_loop_space_suffix:
  "list_all space g \<Longrightarrow> split_loop space cur (s @ g) = split_loop space cur s"
  by (induction s arbitrary: cur) (simp_all add: split_loop_space_only)

lemma split_loop_after_token:
  "cur \<noteq> [] \<Longrightarrow> g \<noteq> [] \<Longrightarrow> list_all space g \<Longrightarrow>
   split_loop space cur (g @ s) = cur # split_loop space [] (g @ s)"
  by (cases g) simp_all

lemma strip_decompose:
  "\<exists>a b. s = a @ strip_by space s @ b \<and> list_all space a \<and> list_all space b"
proof -
  let ?d = "dropWhile space s"
  have "s = takeWhile space s @ ?d" by simp
  moreover have "?d = rev (takeWhile space (rev ?d) @ dropWhile space (rev ?d))"
    by (simp only: takeWhile_dropWhile_id rev_rev_ident)
  then have "?d = strip_by space s @ rev (takeWhile space (rev ?d))"
    by (simp only: rev_append strip_by_def)
  ultimately have "s = takeWhile space s @ strip_by space s @ rev (takeWhile space (rev ?d))"
    by simp
  moreover have "list_all space (takeWhile space s)"
    by (simp add: list_all_iff) (meson set_takeWhileD)
  moreover have "list_all space (rev (takeWhile space (rev ?d)))"
    by (simp add: list_all_iff) (meson set_takeWhileD)
  ultimately show ?thesis by blast
qed

lemma split_by_strip_by: "split_by space (strip_by space s) = split_by space s"
proof -
  from strip_decompose [of s space] obtain a b
    where s: "s = a @ strip_by space s @ b" and a: "list_all space a" and b: "list_all space b"
    by blast
  have "split_by space s = split_loop space [] (a @ strip_by space s @ b)"
    using s by (simp add: split_by_def)
  also have "\<dots> = split_loop space [] (strip_by space s @ b)"
    using a by (rule split_loop_space_prefix)
  also have "\<dots> = split_loop space [] (strip_by space s)"
    using b by (rule split_loop_space_suffix)
  finally show ?thesis by (simp add: split_by_def)
qed

lemma split_loop_weave:
  "length gaps = length tokens + 1 \<Longrightarrow> list_all (list_all space) gaps \<Longrightarrow>
   list_all (\<lambda>t. t \<noteq> [] \<and> list_all (\<lambda>c. \<not> space c) t) tokens \<Longrightarrow>
   [] \<notin> set (butlast (tl gaps)) \<Longrightarrow>
   split_loop space [] (weave gaps tokens) = tokens"
proof (induction tokens arbitrary: gaps)
  case Nil
  then obtain g where "gaps = [g]" by (cases gaps) auto
  with Nil show ?case by (simp add: split_loop_space_only)
next
  case (Cons t ts)
  then obtain g gs where gaps: "gaps = g # gs" by (cases gaps) auto
  from Cons.prems gaps have g: "list_all space g" and gs: "list_all (list_all space) gs"
    and len: "length gs = length ts + 1" by simp_all
  from Cons.prems have t: "t \<noteq> []" "list_all (\<lambda>c. \<not> space c) t"
    and ts: "list_all (\<lambda>t. t \<noteq> [] \<and> list_all (\<lambda>c. \<not> space c) t) ts" by simp_all
  have "split_loop space [] (weave gaps (t # ts)) = split_loop space [] (t @ weave gs ts)"
    using g by (simp add: gaps split_loop_space_prefix)
  also have "\<dots> = split_loop space t (weave gs ts)"
    using t by (simp add: split_loop_token_prefix)
  also have "\<dots> = t # ts"
  proof (cases ts)
    case Nil
    with len obtain g' where "gs = [g']" by (cases gs) auto
    with Nil gs t show ?thesis by (simp add: split_loop_space_only)
  next
    case (Cons t' ts')
    from len obtain g' gs' where gs': "gs = g' # gs'" by (cases gs) auto
    with len Cons have "gs' \<noteq> []" by auto
    with Cons.prems(4) gaps gs' have ne: "g' \<noteq> []" and inner: "[] \<notin> set (butlast (tl gs))"
      by auto
    from gs gs' have g': "list_all space g'" by simp
    have "weave gs ts = g' @ t' @ weave gs' ts'" by (simp add: gs' Cons)
    then have "split_loop space t (weave gs ts) = t # split_loop space [] (weave gs ts)"
      using split_loop_after_token [OF t(1) ne g', of "t' @ weave gs' ts'"] by simp
    moreover have "split_loop space [] (weave gs ts) = ts"
      using len gs ts inner by (rule Cons.IH)
    ultimately show ?thesis by simp
  qed
  finally show ?case .
qed

lemma tokenization_split:
  "tokenization space s gaps tokens \<Longrightarrow> split_by space (strip_by space s) = tokens"
  by (simp add: tokenization_def split_by_strip_by) (simp add: split_by_def split_loop_weave)

lemma tokenization_exists: "\<exists>gaps tokens. tokenization space s gaps tokens"
proof (induction s)
  case Nil
  have "tokenization space [] [[]] []" by (simp add: tokenization_def)
  then show ?case by blast
next
  case (Cons c s)
  then obtain gaps tokens where tk: "tokenization space s gaps tokens" by blast
  then obtain g gs where gaps: "gaps = g # gs" by (cases gaps) (auto simp: tokenization_def)
  show ?case
  proof (cases "space c")
    case True
    have "tokenization space (c # s) ((c # g) # gs) tokens"
      using tk True by (cases tokens) (auto simp: tokenization_def gaps)
    then show ?thesis by blast
  next
    case False
    show ?thesis
    proof (cases "g = [] \<and> tokens \<noteq> []")
      case True
      then obtain t ts where "tokens = t # ts" by (cases tokens) auto
      with tk True False have "tokenization space (c # s) gaps ((c # t) # ts)"
        by (auto simp: tokenization_def gaps)
      then show ?thesis by blast
    next
      case other: False
      have "tokenization space (c # s) ([] # gaps) ([c] # tokens)"
      proof (cases tokens)
        case Nil
        with tk False show ?thesis by (auto simp: tokenization_def gaps)
      next
        case (Cons t ts)
        with other have "g \<noteq> []" by simp
        moreover from tk Cons have "gs \<noteq> []" by (auto simp: tokenization_def gaps)
        ultimately show ?thesis using tk False Cons by (auto simp: tokenization_def gaps)
      qed
      then show ?thesis by blast
    qed
  qed
qed

lemma make_username_by_tokens:
  assumes "tokenization space full_name gaps tokens"
  shows "make_username_by space title lower_at dot full_name
           = str_join [dot] (map (capitalize_by title lower_at) tokens)"
proof -
  from assms have split: "split_by space (strip_by space full_name) = tokens"
    by (rule tokenization_split)
  from assms have "\<forall>t \<in> set tokens. t \<noteq> []" by (simp add: tokenization_def list_all_iff)
  then have "filter (\<lambda>p. p \<noteq> []) tokens = tokens" by simp
  with split show ?thesis by (simp add: make_username_by_def Let_def)
qed

lemma capitalize_token:
  "t \<noteq> [] \<Longrightarrow> totitle (hd t) \<noteq> None \<Longrightarrow> capitalize t = the (totitle (hd t)) @ map tolower (tl t)"
  by (cases t) (auto simp: capitalize_Cons title_or_same_def)

text \<open>
  Claim C5. Over any alphabet and whatever the character database says: every name has
  a tokenization, and whatever tokenization it has, the derived username is the
  dot-join of its tokens, each capitalized, that is, the title case of its first
  character followed, as \<open>str.capitalize\<close> has it, by the lower case of each of the
  others. For the strings of the model this is the third conjunct, stated for the names
  whose tokens begin with a character that has its title case among the code points of
  the model. The three examples of the specification are the last three conjuncts.
\<close>

theorem make_username_tokens:
  "(\<exists>gaps tokens. tokenization space full_name gaps tokens)
   \<and> (\<forall>gaps tokens.
         tokenization space full_name gaps tokens
         \<longrightarrow> make_username_by space title lower_at dot full_name
               = str_join [dot]
                   (map (\<lambda>t. title (hd t) @ concat (map (lower_at t) [1..<length t])) tokens))
   \<and> (\<forall>gaps tokens.
         tokenization isspace name gaps tokens \<and> (\<forall>t \<in> set tokens. totitle (hd t) \<noteq> None)
         \<longrightarrow> make_username name
               = str_join ''.'' (map (\<lambda>t. the (totitle (hd t)) @ map tolower (tl t)) tokens))
   \<and> make_username ''suhel shaikh'' = ''Suhel.Shaikh''
   \<and> make_username [] = []
   \<and> make_username ''  jo   bloggs '' = ''Jo.Bloggs''"
proof (intro conjI allI impI)
  show "\<exists>gaps tokens. tokenization space full_name gaps tokens" by (rule tokenization_exists)
next
  fix gaps tokens
  assume a: "tokenization space full_name gaps tokens"
  then have ne: "\<forall>t \<in> set tokens. t \<noteq> []" by (simp add: tokenization_def list_all_iff)
  then have "map (capitalize_by title lower_at) tokens
      = map (\<lambda>t. title (hd t) @ concat (map (lower_at t) [1..<length t])) tokens"
    by (simp add: capitalize_by_def)
  with make_username_by_tokens [OF a, of title lower_at dot]
  show "make_username_by space title lower_at dot full_name
      = str_join [dot] (map (\<lambda>t. title (hd t) @ concat (map (lower_at t) [1..<length t])) tokens)"
    by simp
next
  fix gaps tokens
  assume a: "tokenization isspace name gaps tokens \<and> (\<forall>t \<in> set tokens. totitle (hd t) \<noteq> None)"
  then have tk: "tokenization isspace name gaps tokens" by (rule conjunct1)
  then have ne: "\<forall>t \<in> set tokens. t \<noteq> []" by (simp add: tokenization_def list_all_iff)
  from make_username_by_tokens [OF tk, of title_or_same tolower_at "CHR ''.''"]
  have "make_username name = str_join ''.'' (map capitalize tokens)"
    by (simp add: make_username_def capitalize_def [abs_def])
  moreover have "map capitalize tokens
      = map (\<lambda>t. the (totitle (hd t)) @ map tolower (tl t)) tokens"
    using a ne by (simp add: capitalize_token)
  ultimately show "make_username name
      = str_join ''.'' (map (\<lambda>t. the (totitle (hd t)) @ map tolower (tl t)) tokens)"
    by simp
next
  show "make_username ''suhel shaikh'' = ''Suhel.Shaikh''" by code_simp
next
  show "make_username [] = []" by code_simp
next
  show "make_username ''  jo   bloggs '' = ''Jo.Bloggs''" by code_simp
qed

theorem make_username_tokens_witness:
  "tokenization isspace (CHR 0x20 # CHR 0xE9 # ''mile   ZOLA '')
     ['' '', ''   '', '' ''] [CHR 0xE9 # ''mile'', ''ZOLA'']
   \<and> make_username (CHR 0x20 # CHR 0xE9 # ''mile   ZOLA '') = CHR 0xC9 # ''mile.Zola''
   \<and> make_username_by isspace title_or_same tolower_at (CHR ''.'')
        (CHR 0x20 # CHR 0xE9 # ''mile   ZOLA '') = CHR 0xC9 # ''mile.Zola''"
proof -
  have t: "tokenization isspace (CHR 0x20 # CHR 0xE9 # ''mile   ZOLA '')
     ['' '', ''   '', '' ''] [CHR 0xE9 # ''mile'', ''ZOLA'']"
    by (simp add: tokenization_def isspace_def)
  have r: "\<forall>t \<in> set [CHR 0xE9 # ''mile'', ''ZOLA'']. totitle (hd t) \<noteq> None"
    by (simp add: totitle_def)
  have j: "str_join ''.'' (map (\<lambda>t. the (totitle (hd t)) @ map tolower (tl t))
             [CHR 0xE9 # ''mile'', ''ZOLA'']) = CHR 0xC9 # ''mile.Zola''"
    by code_simp
  have k: "str_join ''.'' (map (\<lambda>t. title_or_same (hd t) @ concat (map (tolower_at t) [1..<length t]))
             [CHR 0xE9 # ''mile'', ''ZOLA'']) = CHR 0xC9 # ''mile.Zola''"
    by code_simp
  note inst = make_username_tokens [of isspace "CHR 0x20 # CHR 0xE9 # ''mile   ZOLA ''"
      title_or_same tolower_at "CHR ''.''" "CHR 0x20 # CHR 0xE9 # ''mile   ZOLA ''"]
  from inst [THEN conjunct2, THEN conjunct2, THEN conjunct1, rule_format,
      of "['' '', ''   '', '' '']" "[CHR 0xE9 # ''mile'', ''ZOLA'']"] t r j
  have a: "make_username (CHR 0x20 # CHR 0xE9 # ''mile   ZOLA '') = CHR 0xC9 # ''mile.Zola''"
    by simp
  from inst [THEN conjunct2, THEN conjunct1, rule_format,
      of "['' '', ''   '', '' '']" "[CHR 0xE9 # ''mile'', ''ZOLA'']"] t k
  have b: "make_username_by isspace title_or_same tolower_at (CHR ''.'')
        (CHR 0x20 # CHR 0xE9 # ''mile   ZOLA '') = CHR 0xC9 # ''mile.Zola''"
    by simp
  from t a b show ?thesis by simp
qed

section \<open>Proofs: markup encoder\<close>

lemma replace_char_append:
  "replace_char old new (xs @ ys) = replace_char old new xs @ replace_char old new ys"
  by (simp add: replace_char_def)

lemma replace_char_Cons:
  "replace_char old new (x # xs) = (if x = old then new else [x]) @ replace_char old new xs"
  by (simp add: replace_char_def)

lemma replace_char_Nil [simp]: "replace_char old new [] = []"
  by (simp add: replace_char_def)

lemma escape_html_Nil [simp]: "escape_html [] = []"
  by (simp add: escape_html_def)

lemma escape_html_Cons: "escape_html (c # cs) = escape_char c @ escape_html cs"
  by (simp add: escape_html_def escape_char_def replace_char_Cons replace_char_append)

lemma escape_html_chars: "escape_html s = concat (map escape_char s)"
  by (induction s) (simp_all add: escape_html_Cons)

lemma fragment_loop_map: "fragment_loop out lines = out @ map encode_line lines"
  by (induction lines arbitrary: out) (simp_all add: Let_def encode_line_def escape_html_chars)

text \<open>
  Claim C4. For every sequence of lines, the fragment is the concatenation, in input
  order, of one piece per line, and the piece is what \<open>encode_line\<close> says: a line
  break marker for an empty line (a line with nothing in it but line feeds, which the
  encoder strips from the end of every line); otherwise the escaped text and a marker,
  the escaped text wrapped in bold and underline markup when the raw line starts with one
  of the three heading prefixes. Escaping replaces the ampersand, the angle brackets and both quotes,
  character by character (\<open>escape_char\<close>). The match is case sensitive:
  \<open>PC login:\<close> is wrapped, \<open>pc login:\<close> is not.
\<close>

theorem format_html_lines_for_fragment_pieces:
  "format_html_lines_for_fragment lines = concat (map encode_line lines)
   \<and> format_html_lines_for_fragment [''PC login:''] = ''<b><u>PC login:</u></b><br/>''
   \<and> format_html_lines_for_fragment [''pc login:''] = ''pc login:<br/>''"
proof -
  have "format_html_lines_for_fragment lines = concat (map encode_line lines)"
    by (simp add: format_html_lines_for_fragment_def fragment_loop_map)
  moreover have "format_html_lines_for_fragment [''PC login:''] = ''<b><u>PC login:</u></b><br/>''"
    by code_simp
  moreover have "format_html_lines_for_fragment [''pc login:''] = ''pc login:<br/>''"
    by code_simp
  ultimately show ?thesis by blast
qed

theorem format_html_lines_for_fragment_pieces_witness:
  "format_html_lines_for_fragment [''Itris: a<b'', [LF], ''x & y'' @ [LF]]
     = ''<b><u>Itris: a&lt;b</u></b><br/><br/>x &amp; y<br/>''"
proof -
  have "concat (map encode_line [''Itris: a<b'', [LF], ''x & y'' @ [LF]])
     = ''<b><u>Itris: a&lt;b</u></b><br/><br/>x &amp; y<br/>''" by code_simp
  then show ?thesis
    using format_html_lines_for_fragment_pieces [of "[''Itris: a<b'', [LF], ''x & y'' @ [LF]]"]
    by simp
qed

section \<open>Proofs: clipboard container builder\<close>

lemma startswith_take: "startswith s p = (take (length p) s = p)"
  by (induction s p rule: startswith.induct) auto

lemma startswith_append_self [simp]: "startswith (p @ r) p"
  by (simp add: startswith_take)

lemma find_from_range: "find_from i s sub = - 1 \<or> int i \<le> find_from i s sub"
proof (induction s arbitrary: i)
  case Nil
  show ?case by simp
next
  case (Cons x xs)
  from Cons.IH [of "Suc i"] show ?case by auto
qed

lemma find_from_shift:
  "find_from i s sub = (if find_from 0 s sub = - 1 then - 1 else int i + find_from 0 s sub)"
proof (induction s arbitrary: i)
  case Nil
  show ?case by simp
next
  case (Cons x xs)
  show ?case
  proof (cases "startswith (x # xs) sub")
    case True
    then show ?thesis by simp
  next
    case False
    have a: "find_from (Suc i) xs sub
               = (if find_from 0 xs sub = - 1 then - 1 else int (Suc i) + find_from 0 xs sub)"
      by (rule Cons.IH)
    have b: "find_from (Suc 0) xs sub
               = (if find_from 0 xs sub = - 1 then - 1 else int (Suc 0) + find_from 0 xs sub)"
      by (rule Cons.IH)
    have c: "find_from 0 xs sub = - 1 \<or> 0 \<le> find_from 0 xs sub"
      using find_from_range [of 0 xs sub] by simp
    from False a b c show ?thesis by auto
  qed
qed

lemma find_from_Cons_skip:
  "\<not> startswith (x # xs) sub \<Longrightarrow>
   find_from 0 (x # xs) sub = (if find_from 0 xs sub = - 1 then - 1 else 1 + find_from 0 xs sub)"
  using find_from_shift [of "Suc 0" xs sub] by simp

text \<open>
  A pattern whose first element does not occur again in it cannot straddle the place
  where a copy of the pattern begins.
\<close>

lemma startswith_straddle:
  assumes sw: "startswith (a @ (m # ms) @ b) (m # ms)" and m: "m \<notin> set ms" and a: "a \<noteq> []"
  shows "startswith a (m # ms)"
proof (cases "length (m # ms) \<le> length a")
  case True
  with sw show ?thesis by (simp add: startswith_take)
next
  case False
  then have lt: "length a < length (m # ms)" by simp
  from sw have eq: "take (length (m # ms)) (a @ (m # ms) @ b) = m # ms"
    by (simp add: startswith_take)
  have "(take (length (m # ms)) (a @ (m # ms) @ b)) ! length a = (a @ (m # ms) @ b) ! length a"
    using lt by (intro nth_take)
  also have "\<dots> = m" by (simp add: nth_append)
  finally have "(m # ms) ! length a = m" using eq by simp
  moreover from a obtain k where k: "length a = Suc k" by (cases a) auto
  ultimately have "ms ! k = m" by simp
  moreover have "k < length ms" using lt k by simp
  ultimately have "m \<in> set ms" using nth_mem by metis
  with m show ?thesis by simp
qed

lemma find_from_first_copy:
  assumes "find_from 0 a (m # ms) = - 1" and "m \<notin> set ms"
  shows "find_from i (a @ (m # ms) @ b) (m # ms) = int (i + length a)"
  using assms(1)
proof (induction a arbitrary: i)
  case Nil
  have "startswith ((m # ms) @ b) (m # ms)" by (rule startswith_append_self)
  then show ?case by simp
next
  case (Cons x a)
  have ns: "\<not> startswith (x # a) (m # ms)"
    using Cons.prems by (auto split: if_splits)
  then have "find_from (Suc 0) a (m # ms) = - 1"
    using Cons.prems by (simp del: startswith.simps)
  then have none: "find_from 0 a (m # ms) = - 1"
    using find_from_shift [of "Suc 0" a "m # ms"] find_from_range [of 0 a "m # ms"]
    by (auto split: if_splits)
  have "\<not> startswith ((x # a) @ (m # ms) @ b) (m # ms)"
    using startswith_straddle [of "x # a" m ms b] ns assms(2) by blast
  then have "find_from i ((x # a) @ (m # ms) @ b) (m # ms)
               = find_from (Suc i) (a @ (m # ms) @ b) (m # ms)"
    by (simp del: startswith.simps)
  also have "\<dots> = int (Suc i + length a)" using none by (rule Cons.IH)
  finally show ?case by simp
qed

lemma length_digits: "n < 10 ^ k \<Longrightarrow> 0 < k \<Longrightarrow> length (digits n) \<le> k"
proof (induction n arbitrary: k rule: digits.induct)
  case (1 n)
  show ?case
  proof (cases "n < 10")
    case True
    then show ?thesis using "1.prems" by (simp add: digits.simps [of n])
  next
    case False
    from "1.prems" obtain j where j: "k = Suc j" by (cases k) auto
    have "j \<noteq> 0"
    proof
      assume "j = 0"
      with "1.prems" j have "n < 10" by simp
      with False show False by simp
    qed
    moreover have "n div 10 < 10 ^ j" using "1.prems" j by (simp add: less_mult_imp_div_less)
    ultimately have "length (digits (n div 10)) \<le> j" using "1.IH" [OF False, of j] by simp
    then show ?thesis using False j by (simp add: digits.simps [of n])
  qed
qed

lemma length_fmt_08d: "0 \<le> n \<Longrightarrow> n < 100000000 \<Longrightarrow> length (fmt_08d n) = 8"
proof -
  assume n: "0 \<le> n" "n < 100000000"
  then have "nat n < 10 ^ 8" by simp
  then have "length (digits (nat n)) \<le> 8" by (rule length_digits) simp
  with n show ?thesis by (simp add: fmt_08d_def zfill_def)
qed

lemma length_header_template:
  "\<lbrakk>0 \<le> a; a < 100000000; 0 \<le> b; b < 100000000; 0 \<le> c; c < 100000000; 0 \<le> d; d < 100000000\<rbrakk>
   \<Longrightarrow> length (header_template a b c d) = 97"
  by (simp add: header_template_def length_fmt_08d)

lemma header_len_97: "length (header_template 0 0 0 0) = 97"
  by (rule length_header_template) simp_all

lemma find_start_marker: "py_find (html_body_of fb) start_fragment_marker = 12"
  by (simp add: py_find_def html_body_of_def start_fragment_marker_def)

lemma find_end_marker:
  assumes "py_find fb end_fragment_marker = - 1"
  shows "py_find (html_body_of fb) end_fragment_marker = 32 + int (length fb)"
proof -
  have "\<And>i. find_from i (fb @ end_fragment_marker @ ''</body></html>'') end_fragment_marker
          = int (i + length fb)"
    unfolding end_fragment_marker_def
    by (rule find_from_first_copy)
       (use assms in \<open>simp_all add: py_find_def end_fragment_marker_def\<close>)
  then show ?thesis
    by (simp add: py_find_def html_body_of_def start_fragment_marker_def
        end_fragment_marker_def)
qed

lemma py_slice_inside:
  "0 \<le> a \<Longrightarrow> a \<le> b \<Longrightarrow> b \<le> int (length s) \<Longrightarrow>
   py_slice s a b = take (nat (b - a)) (drop (nat a) s)"
  by (simp add: py_slice_def Let_def min_def)

lemma length_html_body_of: "length (html_body_of fb) = 64 + length fb"
  by (simp add: html_body_of_def start_fragment_marker_def end_fragment_marker_def)

lemma length_start_fragment_marker: "length start_fragment_marker = 20"
  by (simp add: start_fragment_marker_def)

lemma make_cf_html_bytes_unfold:
  assumes "py_find fb end_fragment_marker = - 1"
  shows "make_cf_html_bytes (Bytes fb)
           = header_template 97 (161 + int (length fb)) 129 (129 + int (length fb))
             @ html_body_of fb"
  by (simp add: make_cf_html_bytes_def Let_def header_len_97 find_start_marker
      find_end_marker [OF assms] length_html_body_of length_start_fragment_marker)

lemma make_cf_html_bytes_Str:
  "make_cf_html_bytes (Str s) = make_cf_html_bytes (Bytes (utf8_encode s))"
  by (simp add: make_cf_html_bytes_def)

lemma drop_header_body:
  "length h = 97 \<Longrightarrow> drop 97 (h @ body) = body"
  by simp

lemma drop_header_fragment:
  assumes "length h = 97"
  shows "drop 129 (h @ html_body_of fb) = fb @ end_fragment_marker @ ''</body></html>''"
proof -
  have "drop 129 (h @ html_body_of fb) = drop 32 (html_body_of fb)"
    using assms by simp
  also have "\<dots> = fb @ end_fragment_marker @ ''</body></html>''"
    by (simp add: html_body_of_def start_fragment_marker_def)
  finally show ?thesis .
qed

text \<open>
  Claim C2, as amended. For every fragment whose encoding does not hold the end marker
  \<open><!--EndFragment-->\<close> and is shorter than 99999839 bytes (so that the container is
  shorter than a hundred million), the container is the header written with the four
  offsets 97, 161 + n, 129 and 129 + n followed by the document skeleton, where n is the
  length of the encoded fragment in bytes; slicing the container from the first offset to
  the second gives the skeleton, and from the third to the fourth the encoded fragment.
\<close>

theorem make_cf_html_bytes_offsets:
  assumes marker: "py_find (utf8_encode fragment) end_fragment_marker = - 1"
      and size: "length (utf8_encode fragment) < 99999839"
  shows "let fragment_bytes = utf8_encode fragment;
             n = int (length fragment_bytes);
             html_body = html_body_of fragment_bytes;
             full = make_cf_html_bytes (Str fragment)
         in full = header_template 97 (161 + n) 129 (129 + n) @ html_body
            \<and> py_slice full 97 (161 + n) = html_body
            \<and> py_slice full 129 (129 + n) = fragment_bytes"
proof -
  let ?fb = "utf8_encode fragment"
  let ?n = "int (length ?fb)"
  let ?h = "header_template 97 (161 + ?n) 129 (129 + ?n)"
  let ?full = "make_cf_html_bytes (Str fragment)"
  have full: "?full = ?h @ html_body_of ?fb"
    using make_cf_html_bytes_unfold [OF marker] by (simp add: make_cf_html_bytes_Str)
  have h: "length ?h = 97"
    using size by (intro length_header_template) simp_all
  have len: "int (length ?full) = 161 + ?n"
    by (simp add: full h length_html_body_of)
  have "py_slice ?full 97 (161 + ?n) = take (nat (161 + ?n - 97)) (drop (nat 97) ?full)"
    using len by (intro py_slice_inside) simp_all
  also have "\<dots> = take (64 + length ?fb) (html_body_of ?fb)"
    by (simp add: full h nat_add_distrib)
  also have "\<dots> = html_body_of ?fb"
    by (simp add: length_html_body_of)
  finally have body: "py_slice ?full 97 (161 + ?n) = html_body_of ?fb" .
  have "py_slice ?full 129 (129 + ?n) = take (nat (129 + ?n - 129)) (drop (nat 129) ?full)"
    using len by (intro py_slice_inside) simp_all
  also have "\<dots> = take (length ?fb) (drop 129 (?h @ html_body_of ?fb))"
    by (simp add: full)
  also have "\<dots> = ?fb"
    unfolding drop_header_fragment [OF h] by simp
  finally have frag: "py_slice ?full 129 (129 + ?n) = ?fb" .
  from full body frag show ?thesis by (simp add: Let_def)
qed

theorem make_cf_html_bytes_offsets_witness:
  "make_cf_html_bytes (Str [CHR ''a'', CHR 0xE9])
     = header_template 97 164 129 132 @ html_body_of [CHR ''a'', CHR 0xC3, CHR 0xA9]
   \<and> py_slice (make_cf_html_bytes (Str [CHR ''a'', CHR 0xE9])) 97 164
     = html_body_of [CHR ''a'', CHR 0xC3, CHR 0xA9]
   \<and> py_slice (make_cf_html_bytes (Str [CHR ''a'', CHR 0xE9])) 129 132
     = [CHR ''a'', CHR 0xC3, CHR 0xA9]"
proof -
  have e: "utf8_encode [CHR ''a'', CHR 0xE9] = [CHR ''a'', CHR 0xC3, CHR 0xA9]"
    by code_simp
  have m: "py_find (utf8_encode [CHR ''a'', CHR 0xE9]) end_fragment_marker = - 1"
    by code_simp
  have s: "length (utf8_encode [CHR ''a'', CHR 0xE9]) < 99999839"
    by (simp add: e)
  have n: "int (length [CHR ''a'', CHR 0xC3, CHR 0xA9]) = 3"
    by simp
  have a: "(161::int) + 3 = 164" "(129::int) + 3 = 132"
    by simp_all
  show ?thesis
    using make_cf_html_bytes_offsets [OF m s] unfolding Let_def e n a .
qed


lemma length_digits_lower: "10 ^ k \<le> n \<Longrightarrow> k < length (digits n)"
proof (induction n arbitrary: k rule: digits.induct)
  case (1 n)
  show ?case
  proof (cases "n < 10")
    case True
    have "k = 0"
    proof (cases k)
      case 0
      then show ?thesis .
    next
      case (Suc j)
      have "(10::nat) \<le> 10 * 10 ^ j" by simp
      with "1.prems" Suc True show ?thesis by simp
    qed
    then show ?thesis by (simp add: digits.simps [of n])
  next
    case False
    show ?thesis
    proof (cases k)
      case 0
      then show ?thesis by (simp add: digits.simps [of n])
    next
      case (Suc j)
      with "1.prems" have "10 ^ j \<le> n div 10" by simp
      then have "j < length (digits (n div 10))" using "1.IH" [OF False] by simp
      with False Suc show ?thesis by (simp add: digits.simps [of n])
    qed
  qed
qed

lemma length_fmt_08d_nine:
  assumes "100000000 \<le> n" and "n < 1000000000"
  shows "length (fmt_08d n) = 9"
proof -
  have "10 ^ 8 \<le> nat n" using assms by simp
  then have "8 < length (digits (nat n))" by (rule length_digits_lower)
  moreover have "nat n < 10 ^ 9" using assms by simp
  then have "length (digits (nat n)) \<le> 9" by (rule length_digits) simp
  ultimately have "length (digits (nat n)) = 9" by simp
  with assms show ?thesis by (simp add: fmt_08d_def zfill_def)
qed

lemma find_from_absent: "m \<notin> set s \<Longrightarrow> find_from i s (m # ms) = - 1"
  by (induction s arbitrary: i) auto

lemma utf8_encode_replicate:
  "(of_char c :: nat) < 128 \<Longrightarrow> utf8_encode (replicate n c) = replicate n c"
  by (induction n) (simp_all add: utf8_encode_def utf8_char_def)

text \<open>
  A container of a hundred million bytes or more: the numbers no longer fit eight digits,
  the header is longer than the 97 bytes measured with zeros, and the offsets, which
  count from 97, point two bytes before the fragment.
\<close>

lemma make_cf_html_bytes_long:
  assumes n: "99999871 \<le> length fb" "length fb < 999999839"
      and marker: "py_find fb end_fragment_marker = - 1"
  shows "hd (py_slice (make_cf_html_bytes (Bytes fb)) 129 (129 + int (length fb))) = CHR ''-''"
proof -
  let ?n = "int (length fb)"
  let ?h = "header_template 97 (161 + ?n) 129 (129 + ?n)"
  have full: "make_cf_html_bytes (Bytes fb) = ?h @ html_body_of fb"
    by (rule make_cf_html_bytes_unfold [OF marker])
  have "length (fmt_08d (161 + ?n)) = 9" "length (fmt_08d (129 + ?n)) = 9"
    using n by (simp_all add: length_fmt_08d_nine)
  then have h: "length ?h = 99"
    by (simp add: header_template_def length_fmt_08d)
  have "py_slice (?h @ html_body_of fb) 129 (129 + ?n)
          = take (nat (129 + ?n - 129)) (drop (nat 129) (?h @ html_body_of fb))"
    by (intro py_slice_inside) (simp_all add: h length_html_body_of)
  also have "\<dots> = take (length fb) (drop 30 (html_body_of fb))"
    by (simp add: h)
  also have "drop 30 (html_body_of fb) = ''->'' @ fb @ end_fragment_marker @ ''</body></html>''"
    by (simp add: html_body_of_def start_fragment_marker_def)
  finally have "py_slice (?h @ html_body_of fb) 129 (129 + ?n)
      = take (length fb) (''->'' @ fb @ end_fragment_marker @ ''</body></html>'')" .
  moreover have "fb \<noteq> []" using n by auto
  ultimately show ?thesis
    by (simp add: full take_Cons')
qed

text \<open>
  The claim as stated, for every fragment, fails twice. A fragment that holds the end
  marker: \<open>find\<close> returns its first occurrence, the one inside the fragment, and the
  slice is empty. A fragment of a hundred million bytes: the header is written with
  nine-digit offsets and the slice starts inside the start marker.
\<close>

theorem make_cf_html_bytes_counterexample:
  "make_cf_html_bytes (Str ''<!--EndFragment-->'')
     = header_template 97 179 129 129 @ html_body_of (utf8_encode ''<!--EndFragment-->'')
   \<and> py_slice (make_cf_html_bytes (Str ''<!--EndFragment-->'')) 129 129
       \<noteq> utf8_encode ''<!--EndFragment-->''
   \<and> make_cf_html_bytes (Str (replicate 100000000 (CHR ''a'')))
     = header_template 97 100000161 129 100000129
       @ html_body_of (utf8_encode (replicate 100000000 (CHR ''a'')))
   \<and> py_slice (make_cf_html_bytes (Str (replicate 100000000 (CHR ''a'')))) 129 100000129
       \<noteq> utf8_encode (replicate 100000000 (CHR ''a''))"
proof -
  let ?big = "replicate 100000000 (CHR ''a'')"
  have small: "make_cf_html_bytes (Str ''<!--EndFragment-->'')
     = header_template 97 179 129 129 @ html_body_of (utf8_encode ''<!--EndFragment-->'')
   \<and> py_slice (make_cf_html_bytes (Str ''<!--EndFragment-->'')) 129 129
       \<noteq> utf8_encode ''<!--EndFragment-->''"
    by code_simp
  have enc: "utf8_encode ?big = ?big"
    by (rule utf8_encode_replicate) simp
  have marker: "py_find ?big end_fragment_marker = - 1"
    unfolding py_find_def end_fragment_marker_def by (rule find_from_absent) simp
  have len: "int (length ?big) = 100000000"
    by simp
  have full: "make_cf_html_bytes (Str ?big)
                = header_template 97 100000161 129 100000129 @ html_body_of (utf8_encode ?big)"
    using make_cf_html_bytes_unfold [OF marker]
    unfolding make_cf_html_bytes_Str enc len by simp
  have "hd (py_slice (make_cf_html_bytes (Bytes ?big)) 129 (129 + int (length ?big))) = CHR ''-''"
    by (rule make_cf_html_bytes_long [OF _ _ marker]) simp_all
  then have "hd (py_slice (make_cf_html_bytes (Str ?big)) 129 100000129) = CHR ''-''"
    unfolding make_cf_html_bytes_Str enc len by simp
  moreover have "hd (utf8_encode ?big) = CHR ''a''"
    unfolding enc by simp
  ultimately have "py_slice (make_cf_html_bytes (Str ?big)) 129 100000129 \<noteq> utf8_encode ?big"
    by auto
  with small full show ?thesis by blast
qed

section \<open>Proofs: the fragments of the encoder satisfy the condition of the builder\<close>

text \<open>
  In a fragment that the markup encoder builds, every \<open><\<close> opens one of its own tags: it
  is never followed by \<open>!\<close>, and so the end marker does not occur in the fragment, with or
  without the \<open>div\<close> that two of the three callers wrap around it.
\<close>

lemma tag_safe_append: "tag_safe a \<Longrightarrow> tag_safe b \<Longrightarrow> tag_safe (a @ b)"
proof (induction a rule: tag_safe.induct)
  case 1
  then show ?case by simp
next
  case (2 c)
  then show ?case by (cases b) simp_all
next
  case (3 c d ds)
  then show ?case by simp
qed

lemma tag_safe_no_lt: "CHR ''<'' \<notin> set s \<Longrightarrow> tag_safe s"
  by (induction s rule: tag_safe.induct) auto

lemma tag_safe_find:
  "tag_safe s \<Longrightarrow> find_from i s end_fragment_marker = - 1"
proof (induction s arbitrary: i rule: tag_safe.induct)
  case 1
  show ?case by (simp add: end_fragment_marker_def)
next
  case (2 c)
  then show ?case by (simp add: end_fragment_marker_def)
next
  case (3 c d ds)
  then have "\<not> startswith (c # d # ds) end_fragment_marker"
    by (auto simp: end_fragment_marker_def)
  with 3 show ?case by simp
qed

lemma utf8_encode_append: "utf8_encode (a @ b) = utf8_encode a @ utf8_encode b"
  by (simp add: utf8_encode_def)

lemma utf8_char_no_lt: "c \<noteq> CHR ''<'' \<Longrightarrow> CHR ''<'' \<notin> set (utf8_char c)"
proof -
  assume c: "c \<noteq> CHR ''<''"
  have a: "char_of (192 + (of_char c :: nat) div 64) \<noteq> CHR ''<''"
  proof
    assume "char_of (192 + (of_char c :: nat) div 64) = CHR ''<''"
    then have "of_char (char_of (192 + (of_char c :: nat) div 64) :: char) = (of_char (CHR ''<'') :: nat)"
      by simp
    moreover have "(of_char c :: nat) < 256" by simp
    then have "(of_char c :: nat) div 64 < 4" by arith
    ultimately show False by (simp add: of_char_of)
  qed
  have b: "char_of (128 + (of_char c :: nat) mod 64) \<noteq> CHR ''<''"
  proof
    assume "char_of (128 + (of_char c :: nat) mod 64) = CHR ''<''"
    then have "of_char (char_of (128 + (of_char c :: nat) mod 64) :: char) = (of_char (CHR ''<'') :: nat)"
      by simp
    moreover have "(of_char c :: nat) mod 64 < 64" by simp
    ultimately show False by (simp add: of_char_of)
  qed
  from a b c show ?thesis by (simp add: utf8_char_def Let_def)
qed

lemma escape_char_no_lt: "CHR ''<'' \<notin> set (escape_char c)"
  by (simp add: escape_char_def)

lemma utf8_escaped_no_lt: "CHR ''<'' \<notin> set (utf8_encode (concat (map escape_char s)))"
proof -
  have "CHR ''<'' \<notin> set t \<Longrightarrow> CHR ''<'' \<notin> set (utf8_encode t)" for t
  proof (induction t)
    case Nil
    show ?case by (simp add: utf8_encode_def)
  next
    case (Cons a t)
    then have "a \<noteq> CHR ''<''" by auto
    then have "CHR ''<'' \<notin> set (utf8_char a)" by (rule utf8_char_no_lt)
    with Cons show ?case by (simp add: utf8_encode_def)
  qed
  moreover have "CHR ''<'' \<notin> set (concat (map escape_char s))"
    using escape_char_no_lt by auto
  ultimately show ?thesis by blast
qed

lemma utf8_encode_ascii:
  "utf8_encode ''<br/>'' = ''<br/>''" "utf8_encode ''<b><u>'' = ''<b><u>''"
  "utf8_encode ''</u></b><br/>'' = ''</u></b><br/>''"
  "utf8_encode ''<div>'' = ''<div>''" "utf8_encode ''</div>'' = ''</div>''"
  by (simp_all add: utf8_encode_def utf8_char_def)

lemma tag_safe_encode_line: "tag_safe (utf8_encode (encode_line raw))"
proof -
  have e: "tag_safe (utf8_encode (concat (map escape_char s)))" for s
    by (rule tag_safe_no_lt) (rule utf8_escaped_no_lt)
  have t: "tag_safe ''<br/>''" "tag_safe ''<b><u>''" "tag_safe ''</u></b><br/>''"
    by simp_all
  show ?thesis
    unfolding encode_line_def Let_def
    by (auto simp only: utf8_encode_append utf8_encode_ascii intro!: tag_safe_append e t
        split: if_splits)
qed

lemma tag_safe_fragment: "tag_safe (utf8_encode (format_html_lines_for_fragment lines))"
proof -
  have "tag_safe (utf8_encode (concat (map encode_line lines)))"
  proof (induction lines)
    case Nil
    show ?case by (simp add: utf8_encode_def)
  next
    case (Cons l lines)
    then show ?case
      by (simp add: utf8_encode_append tag_safe_append tag_safe_encode_line)
  qed
  then show ?thesis
    by (simp add: format_html_lines_for_fragment_def fragment_loop_map)
qed

lemma encoder_fragment_has_no_end_marker:
  "py_find (utf8_encode (format_html_lines_for_fragment lines)) end_fragment_marker = - 1"
  "py_find (utf8_encode (''<div>'' @ format_html_lines_for_fragment lines @ ''</div>''))
     end_fragment_marker = - 1"
proof -
  show "py_find (utf8_encode (format_html_lines_for_fragment lines)) end_fragment_marker = - 1"
    unfolding py_find_def by (rule tag_safe_find) (rule tag_safe_fragment)
  have "tag_safe (''<div>'' @ utf8_encode (format_html_lines_for_fragment lines) @ ''</div>'')"
    by (intro tag_safe_append tag_safe_fragment) simp_all
  then show "py_find (utf8_encode (''<div>'' @ format_html_lines_for_fragment lines @ ''</div>''))
     end_fragment_marker = - 1"
    unfolding py_find_def utf8_encode_append utf8_encode_ascii by (rule tag_safe_find)
qed

section \<open>Proofs: configuration\<close>

lemma load_config_default:
  "cfg = NoConfigFile \<or> cfg = Unreadable \<or> cfg = NotUtf8 \<or> cfg = NotJson \<Longrightarrow>
   load_config refused cfg w = w\<lparr>DB_FILE := DEFAULT_DB\<rparr>"
  by (auto simp: load_config_def try_load_config_def)

lemma load_config_not_object:
  "\<forall>kvs. data \<noteq> JObj kvs \<Longrightarrow>
   load_config refused (Config data) w = w\<lparr>DB_FILE := DEFAULT_DB\<rparr>"
  by (cases data) (simp_all add: load_config_def try_load_config_def)

lemma load_config_wrong_type:
  "json_truthy (json_get kvs ''db_path'') \<Longrightarrow> \<forall>s. json_get kvs ''db_path'' \<noteq> JStr s \<Longrightarrow>
   load_config refused (Config (JObj kvs)) w = w\<lparr>DB_FILE := DEFAULT_DB\<rparr>"
  by (cases "json_get kvs ''db_path''") (simp_all add: load_config_def try_load_config_def)

lemma load_config_no_path:
  "\<not> json_truthy (json_get kvs ''db_path'') \<Longrightarrow> load_config refused (Config (JObj kvs)) w = w"
  by (simp add: load_config_def try_load_config_def)

lemma load_config_configured:
  "json_get kvs ''db_path'' = JStr s \<Longrightarrow> s \<noteq> [] \<Longrightarrow>
   load_config refused (Config (JObj kvs)) w
     = w\<lparr>DB_FILE := (if refused (Path s) then DEFAULT_DB else Path s)\<rparr>"
  by (simp add: load_config_def try_load_config_def path_exists_def Let_def)

text \<open>The normal form of a path: repeated slashes and single dots go.\<close>

lemma Path_examples:
  "Path ''data//team.csv'' = ''data/team.csv''"
  "Path ''./data/./team.csv/'' = ''data/team.csv''"
  "Path ''///srv/db.csv'' = ''/srv/db.csv''"
  "Path ''//srv/db.csv'' = ''//srv/db.csv''"
  "Path ''./'' = ''.''"
  by code_simp+

lemma split_slash_plain: "CHR ''/'' \<notin> set s \<Longrightarrow> split_slash cur s = [cur @ s]"
  by (induction s arbitrary: cur) auto

lemma Path_plain:
  assumes "CHR ''/'' \<notin> set s" and "s \<noteq> []" and "s \<noteq> ''.''"
  shows "Path s = s"
proof -
  from assms have "takeWhile (\<lambda>c. c = CHR ''/'') s = []" by (cases s) auto
  with assms show ?thesis by (simp add: Path_def split_slash_plain)
qed

lemma path_name_plain: "CHR ''/'' \<notin> set s \<Longrightarrow> s \<noteq> ''.'' \<Longrightarrow> path_name s = s"
proof -
  assume a: "CHR ''/'' \<notin> set s" and d: "s \<noteq> ''.''"
  from a have "takeWhile (\<lambda>c. c \<noteq> CHR ''/'') (rev s) = rev s"
    by (auto simp: takeWhile_eq_all_conv)
  then have "rev (takeWhile (\<lambda>c. c \<noteq> CHR ''/'') (rev s)) = rev (rev s)"
    by (rule arg_cong)
  then have "rev (takeWhile (\<lambda>c. c \<noteq> CHR ''/'') (rev s)) = s"
    by (simp only: rev_rev_ident)
  with d show ?thesis by (simp only: path_name_def if_False)
qed

text \<open>
  Claim C9, as amended. Loading the configuration is a total function, for every
  exception is caught. When the settings store is absent, cannot be read, is not UTF-8
  or not JSON, or holds a JSON value that is not an object, or an object whose
  \<open>db_path\<close> is neither a string nor a value that counts as false, the default path
  is the record file. When the store holds an object without a \<open>db_path\<close>, or with one
  that counts as false, the record file stays what it is, which is the default at
  startup. When the store holds an object whose \<open>db_path\<close> is a non-empty string, the
  path of that string is the record file, whatever the files of the world are, so also
  when no file exists at it, unless the operating system refuses the test for existence:
  then the default path is the record file.
\<close>

theorem load_config_fallback:
  "(cfg = NoConfigFile \<or> cfg = Unreadable \<or> cfg = NotUtf8 \<or> cfg = NotJson
      \<or> (\<exists>data. cfg = Config data \<and> (\<forall>kvs. data \<noteq> JObj kvs))
      \<or> (\<exists>kvs. cfg = Config (JObj kvs) \<and> json_truthy (json_get kvs ''db_path'')
            \<and> (\<forall>s. json_get kvs ''db_path'' \<noteq> JStr s))
      \<longrightarrow> load_config refused cfg w = w\<lparr>DB_FILE := DEFAULT_DB\<rparr>)
   \<and> (cfg = Config (JObj kvs) \<and> \<not> json_truthy (json_get kvs ''db_path'')
      \<longrightarrow> load_config refused cfg w = w
          \<and> startup refused cfg w = w\<lparr>DB_FILE := DEFAULT_DB\<rparr>)
   \<and> (cfg = Config (JObj kvs) \<and> json_get kvs ''db_path'' = JStr s \<and> s \<noteq> []
      \<longrightarrow> load_config refused cfg w
            = w\<lparr>DB_FILE := (if refused (Path s) then DEFAULT_DB else Path s)\<rparr>
          \<and> startup refused cfg w
            = w\<lparr>DB_FILE := (if refused (Path s) then DEFAULT_DB else Path s)\<rparr>)"
proof (intro conjI impI)
  assume "cfg = NoConfigFile \<or> cfg = Unreadable \<or> cfg = NotUtf8 \<or> cfg = NotJson
      \<or> (\<exists>data. cfg = Config data \<and> (\<forall>kvs. data \<noteq> JObj kvs))
      \<or> (\<exists>kvs. cfg = Config (JObj kvs) \<and> json_truthy (json_get kvs ''db_path'')
            \<and> (\<forall>s. json_get kvs ''db_path'' \<noteq> JStr s))"
  then show "load_config refused cfg w = w\<lparr>DB_FILE := DEFAULT_DB\<rparr>"
    using load_config_default [of cfg refused w] load_config_not_object [of _ refused w]
      load_config_wrong_type [of _ refused w]
    by blast
next
  assume a: "cfg = Config (JObj kvs) \<and> \<not> json_truthy (json_get kvs ''db_path'')"
  then show "load_config refused cfg w = w" by (simp add: load_config_no_path)
  from a show "startup refused cfg w = w\<lparr>DB_FILE := DEFAULT_DB\<rparr>"
    by (simp add: startup_def load_config_no_path)
next
  assume a: "cfg = Config (JObj kvs) \<and> json_get kvs ''db_path'' = JStr s \<and> s \<noteq> []"
  then show "load_config refused cfg w
            = w\<lparr>DB_FILE := (if refused (Path s) then DEFAULT_DB else Path s)\<rparr>"
    by (simp add: load_config_configured)
  from a show "startup refused cfg w
            = w\<lparr>DB_FILE := (if refused (Path s) then DEFAULT_DB else Path s)\<rparr>"
    by (simp add: startup_def load_config_configured)
qed

theorem load_config_fallback_witness:
  "load_config (\<lambda>p. False) NotJson \<lparr>files = Map.empty, DB_FILE = ''old.csv''\<rparr>
     = \<lparr>files = Map.empty, DB_FILE = DEFAULT_DB\<rparr>
   \<and> load_config (\<lambda>p. False) (Config (JObj [(''db_path'', JNum 5)]))
         \<lparr>files = Map.empty, DB_FILE = ''old.csv''\<rparr>
     = \<lparr>files = Map.empty, DB_FILE = DEFAULT_DB\<rparr>
   \<and> startup (\<lambda>p. False) (Config (JObj [(''theme'', JStr ''dark'')]))
         \<lparr>files = Map.empty, DB_FILE = ''old.csv''\<rparr>
     = \<lparr>files = Map.empty, DB_FILE = DEFAULT_DB\<rparr>
   \<and> files \<lparr>files = Map.empty, DB_FILE = ''old.csv''\<rparr> ''data/team.csv'' = None
   \<and> load_config (\<lambda>p. False) (Config (JObj [(''db_path'', JStr ''data//team.csv'')]))
         \<lparr>files = Map.empty, DB_FILE = ''old.csv''\<rparr>
     = \<lparr>files = Map.empty, DB_FILE = ''data/team.csv''\<rparr>"
proof -
  let ?w = "\<lparr>files = Map.empty, DB_FILE = ''old.csv''\<rparr>"
  have p: "Path ''data//team.csv'' = ''data/team.csv''" by code_simp
  have a: "load_config (\<lambda>p. False) NotJson ?w = \<lparr>files = Map.empty, DB_FILE = DEFAULT_DB\<rparr>"
    using load_config_fallback [of NotJson "\<lambda>p. False" ?w] by simp
  have b: "load_config (\<lambda>p. False) (Config (JObj [(''db_path'', JNum 5)])) ?w
      = \<lparr>files = Map.empty, DB_FILE = DEFAULT_DB\<rparr>"
    using load_config_fallback [of "Config (JObj [(''db_path'', JNum 5)])" "\<lambda>p. False" ?w]
    by (simp add: json_get_def)
  have c: "startup (\<lambda>p. False) (Config (JObj [(''theme'', JStr ''dark'')])) ?w
      = \<lparr>files = Map.empty, DB_FILE = DEFAULT_DB\<rparr>"
    using load_config_fallback [of "Config (JObj [(''theme'', JStr ''dark'')])" "\<lambda>p. False" ?w
        "[(''theme'', JStr ''dark'')]"]
    by (simp add: json_get_def)
  have d: "load_config (\<lambda>p. False) (Config (JObj [(''db_path'', JStr ''data//team.csv'')])) ?w
      = \<lparr>files = Map.empty, DB_FILE = ''data/team.csv''\<rparr>"
    using load_config_fallback [of "Config (JObj [(''db_path'', JStr ''data//team.csv'')])"
        "\<lambda>p. False" ?w "[(''db_path'', JStr ''data//team.csv'')]" "''data//team.csv''"]
    by (simp add: json_get_def p)
  from a b c d show ?thesis by simp
qed

text \<open>
  The claim as it was worded fails where the operating system refuses the test for
  existence. A settings store that can be read names a path of one component of 300
  letters; no file exists at it; a system that refuses names of more than 255 characters
  makes \<open>exists\<close> raise, and the record file is the default, not the configured path.
\<close>

theorem load_config_fallback_counterexample:
  "Path (replicate 300 (CHR ''a'')) = replicate 300 (CHR ''a'')
   \<and> files \<lparr>files = Map.empty, DB_FILE = DEFAULT_DB\<rparr> (replicate 300 (CHR ''a'')) = None
   \<and> DB_FILE (load_config (\<lambda>p. 255 < length (path_name p))
        (Config (JObj [(''db_path'', JStr (replicate 300 (CHR ''a'')))]))
        \<lparr>files = Map.empty, DB_FILE = DEFAULT_DB\<rparr>) = ''onboarding_db.csv''
   \<and> replicate 300 (CHR ''a'') \<noteq> ''onboarding_db.csv''"
proof -
  let ?s = "replicate 300 (CHR ''a'')"
  have "length ?s \<noteq> length ''.''" by simp
  then have "?s \<noteq> ''.''" by (metis (no_types))
  then have ne: "?s \<noteq> []" "?s \<noteq> ''.''" "CHR ''/'' \<notin> set ?s" by auto
  then have p: "Path ?s = ?s" by (simp add: Path_plain)
  have n: "path_name ?s = ?s" using ne by (simp add: path_name_plain)
  have "length ?s \<noteq> length ''onboarding_db.csv''" by simp
  then have d: "?s \<noteq> ''onboarding_db.csv''" by (metis (no_types))
  have "DB_FILE (load_config (\<lambda>p. 255 < length (path_name p))
        (Config (JObj [(''db_path'', JStr ?s)]))
        \<lparr>files = Map.empty, DB_FILE = DEFAULT_DB\<rparr>) = ''onboarding_db.csv''"
    using ne by (simp add: load_config_configured json_get_def p n DEFAULT_DB_def)
  with p d show ?thesis by simp
qed

section \<open>Proofs: clipboard transaction\<close>

text \<open>
  The path through \<open>ctypes\<close> keeps the promise: once \<open>OpenClipboard\<close> has succeeded,
  the \<open>finally\<close> closes the clipboard, whichever step of the body fails.
\<close>

lemma set_clipboard_html_win32_closes:
  "OpenClipboard_ok os \<Longrightarrow>
   \<not> is_open (snd (set_clipboard_html_win32 os html_fragment plain_text c))"
  by (simp add: set_clipboard_html_win32_def CloseClipboard_def split: prod.splits)

lemma pywin32_transaction_closes:
  "pywin32_transaction py html_fragment plain_text c = (Inr u, c') \<Longrightarrow> \<not> is_open c'"
  by (auto simp: pywin32_transaction_def CloseClipboard_def Let_def split: if_splits)

text \<open>
  The whole call, from a closed clipboard: it ends with the clipboard open exactly when
  \<open>win32clipboard\<close> has opened it and then failed, and \<open>OpenClipboard\<close> of the second
  path fails.
\<close>

lemma set_html_clipboard_fragment_open_iff:
  assumes "\<not> is_open c"
  shows "is_open (snd (set_html_clipboard_fragment on_windows py os html_fragment plain_text c))
         \<longleftrightarrow> on_windows \<and> importable py \<and> open_ok py
             \<and> \<not> (empty_ok py \<and> set_html_ok py \<and> set_text_ok py)
             \<and> \<not> OpenClipboard_ok os"
  using assms
  by (auto simp: set_html_clipboard_fragment_def pywin32_transaction_def
      set_clipboard_html_win32_def CloseClipboard_def Let_def split: prod.splits sum.splits)

lemma set_clipboard_html_win32_not_opened:
  "\<not> OpenClipboard_ok os \<Longrightarrow>
   set_clipboard_html_win32 os html_fragment plain_text c = (Inl (RuntimeError ''OpenClipboard failed''), c)"
  by (simp add: set_clipboard_html_win32_def)

text \<open>
  Claim C8 fails on the first of the two Windows paths. \<open>win32clipboard\<close> opens and
  empties the clipboard, its \<open>SetClipboardData\<close> raises, and no \<open>finally\<close> closes the
  clipboard; the second path then cannot open it, and the call ends through the Tk
  fallback with the clipboard still open.
\<close>

theorem set_html_clipboard_fragment_leaves_open:
  "set_html_clipboard_fragment True
     \<lparr>importable = True, open_ok = True, empty_ok = True, set_html_ok = False, set_text_ok = True\<rparr>
     \<lparr>OpenClipboard_ok = False, EmptyClipboard_ok = True, GlobalAlloc_html_ok = True,
      GlobalLock_html_ok = True, SetClipboardData_html_ok = True, GlobalAlloc_text_ok = True,
      GlobalLock_text_ok = True, SetClipboardData_text_ok = True\<rparr>
     ''<b>x</b>'' ''x''
     \<lparr>is_open = False, contents = Map.empty, blocks = 0\<rparr>
   = (ByTk, \<lparr>is_open = True, contents = Map.empty, blocks = 0\<rparr>)"
  by (simp add: set_html_clipboard_fragment_def pywin32_transaction_def
      set_clipboard_html_win32_def)

section \<open>Proofs: formatter\<close>

lemmas csv_reader_eval =
  csv_reader_def readlines_def parse_line_def parse_process_char_def start_field_def
  parse_add_char_def parse_save_field_def parse_reset_def end_of_line_def after_line_def
  field_limit_def

text \<open>
  What the formatter computes on a record whose fields are strings or absent: the fixed
  template, each slot filled with the field or, where the field is absent, with the empty
  string; the user name is the stored one unless that is empty or absent.
\<close>

lemma format_email_text_template:
  assumes "\<forall>key. fmlookup (items rec) key \<noteq> Some PyNone"
  shows "format_email_text rec =
     Inr (concat (map (\<lambda>line. line @ [LF])
       [''Hi,'', [],
        ''Please see below for '' @ field_or_empty rec ''full_name'' @ [SQUOTE] @ ''s login details.'',
        [],
        ''PC login:'',
        ''PC Name: '' @ field_or_empty rec ''pc_name'',
        ''Username: '' @ (if field_or_empty rec ''username'' \<noteq> [] then field_or_empty rec ''username''
                          else make_username (field_or_empty rec ''full_name'')),
        ''Password: '' @ field_or_empty rec ''password'',
        [],
        ''Itris:'',
        ''Username: '' @ (if field_or_empty rec ''username'' \<noteq> [] then field_or_empty rec ''username''
                          else make_username (field_or_empty rec ''full_name'')),
        ''Password: '' @ field_or_empty rec ''password'',
        [],
        ''Telephone and DDI:'',
        ''Ext: '' @ field_or_empty rec ''ext'',
        ''DDI: '' @ field_or_empty rec ''ddi'',
        [],
        ''Thanks,'']))"
proof -
  have u: "fmlookup (items rec) ''username'' \<noteq> Some PyNone"
    and f: "fmlookup (items rec) ''full_name'' \<noteq> Some PyNone"
    using assms by blast+
  show ?thesis
  proof (cases "fmlookup (items rec) ''username''")
    case None
    then show ?thesis
      using f
      by (cases "fmlookup (items rec) ''full_name''")
         (auto simp: format_email_text_def field_or_empty_def dict_get_def make_username_of_def
            split: pyval.splits)
  next
    case (Some v)
    with u obtain s where v: "v = PyStr s" by (cases v) auto
    show ?thesis
      using f Some v
      by (cases "fmlookup (items rec) ''full_name''")
         (auto simp: format_email_text_def field_or_empty_def dict_get_def make_username_of_def
            split: pyval.splits)
  qed
qed

text \<open>
  Claim C3 fails on a record that \<open>load_records\<close> returns for a row with fewer cells than
  the header has columns: \<open>DictReader\<close> fills the missing fields with \<open>None\<close>, \<open>get\<close>
  finds the key and returns \<open>None\<close> instead of its default, and the f-string prints
  \<open>None\<close> after the colon. Here the store holds one row of four cells.
\<close>

theorem format_email_text_short_row:
  "(case fst (load_records
       \<lparr>files = [''onboarding_db.csv'' \<mapsto>
                   Text (''full_name,username,password,pc_name,ext,ddi,email'' @ [CR, LF]
                   @ ''Ann Lee,Ann.Lee,Pw1!,PC-01'' @ [CR, LF])],
        DB_FILE = ''onboarding_db.csv''\<rparr>)
     of Inl e \<Rightarrow> []
      | Inr recs \<Rightarrow> map (\<lambda>rec. (dict_get rec ''ddi'' (PyStr []), format_email_text rec)) recs)
   = [(PyNone,
       Inr (''Hi,'' @ [LF] @ [LF]
         @ ''Please see below for Ann Lee'' @ [SQUOTE] @ ''s login details.'' @ [LF] @ [LF]
         @ ''PC login:'' @ [LF]
         @ ''PC Name: PC-01'' @ [LF]
         @ ''Username: Ann.Lee'' @ [LF]
         @ ''Password: Pw1!'' @ [LF] @ [LF]
         @ ''Itris:'' @ [LF]
         @ ''Username: Ann.Lee'' @ [LF]
         @ ''Password: Pw1!'' @ [LF] @ [LF]
         @ ''Telephone and DDI:'' @ [LF]
         @ ''Ext: None'' @ [LF]
         @ ''DDI: None'' @ [LF] @ [LF]
         @ ''Thanks,'' @ [LF]))]"
  by (simp add: load_records_def ensure_db_def csv_reader_eval dict_row_def
      format_email_text_def dict_get_def)

text \<open>
  The same gap makes the formatter raise: with the columns in another order, a row whose
  only cell is an empty user name leaves the full name \<open>None\<close>, and \<open>make_username\<close> is
  called on it.
\<close>

lemma format_email_text_raises:
  "(case fst (load_records
       \<lparr>files = [''onboarding_db.csv'' \<mapsto>
                   Text (''username,full_name'' @ [CR, LF] @ [DQUOTE, DQUOTE] @ [CR, LF])],
        DB_FILE = ''onboarding_db.csv''\<rparr>)
     of Inl e \<Rightarrow> []
      | Inr recs \<Rightarrow> map format_email_text recs)
   = [Inl AttributeError]"
  by (simp add: load_records_def ensure_db_def csv_reader_eval dict_row_def
      format_email_text_def dict_get_def make_username_of_def)

section \<open>Proofs: store, writing\<close>

lemma ensure_db_DB_FILE [simp]: "DB_FILE (ensure_db p w) = DB_FILE w"
  by (simp add: ensure_db_def)

lemma ensure_db_existing: "files w p = Some text \<Longrightarrow> ensure_db p w = w"
  by (simp add: ensure_db_def)

lemma ensure_db_other: "q \<noteq> p \<Longrightarrow> files (ensure_db p w) q = files w q"
  by (simp add: ensure_db_def)

lemma write_csv_DB_FILE: "DB_FILE (snd (write_csv p records outcome w)) = DB_FILE w"
  by (simp add: write_csv_def split: prod.splits write_outcome.splits)

lemma write_csv_other:
  "q \<noteq> p \<Longrightarrow> files (snd (write_csv p records outcome w)) q = files w q"
  by (simp add: write_csv_def split: prod.splits write_outcome.splits)

lemma write_csv_done:
  assumes "write_csv p records outcome w = (Inr u, w')"
  shows "\<exists>text. write_table records = (None, text)
           \<and> w' = w\<lparr>files := (files w)(p \<mapsto> Text text)\<rparr>"
  using assms
  by (auto simp: write_csv_def split: prod.splits write_outcome.splits if_splits option.splits)

text \<open>
  A save that returns has left the whole table in the record file, whether through the
  rename or through the rewrite in place.
\<close>

lemma save_records_done:
  assumes "save_records os records w = (Inr u, w')"
  shows "\<exists>text. write_table records = (None, text)
           \<and> files w' (DB_FILE w) = Some (Text text) \<and> DB_FILE w' = DB_FILE w"
proof -
  let ?w = "ensure_db (DB_FILE w) w"
  from assms obtain tmp where tmp: "with_suffix (DB_FILE w) ''.tmp'' = Inr tmp"
    by (auto simp: save_records_def Let_def split: sum.splits)
  from assms tmp obtain u1 w1 where w1: "write_csv tmp records (tmp_write os) ?w = (Inr u1, w1)"
    by (auto simp: save_records_def Let_def split: sum.splits prod.splits)
  from write_csv_done [OF w1] obtain tbl
    where tbl: "write_table records = (None, tbl)"
      and w1': "w1 = ?w\<lparr>files := (files ?w)(tmp \<mapsto> Text tbl)\<rparr>" by blast
  have db1: "DB_FILE w1 = DB_FILE w" by (simp add: w1')
  show ?thesis
  proof (cases "replace_ok os")
    case True
    with assms tmp w1 have "w' = os_replace tmp (DB_FILE w) w1"
      by (simp add: save_records_def Let_def db1)
    then show ?thesis
      using tbl by (auto simp: os_replace_def w1')
  next
    case False
    with assms tmp w1 have "write_csv (DB_FILE w) records (rewrite os) w1 = (Inr u, w')"
      by (simp add: save_records_def Let_def db1)
    from write_csv_done [OF this] tbl show ?thesis
      by (auto simp: w1')
  qed
qed

section \<open>Proofs: save and update\<close>

lemma dropWhile_rev_keeps_head:
  assumes "xs \<noteq> []" and "\<not> P (hd xs)"
  shows "rev (dropWhile P (rev xs)) \<noteq> [] \<and> hd (rev (dropWhile P (rev xs))) = hd xs"
proof -
  from assms obtain x ys where xs: "xs = x # ys" and x: "\<not> P x" by (cases xs) auto
  have "dropWhile P (rev ys @ [x]) = dropWhile P (rev ys) @ [x]"
    using x by (simp add: dropWhile_append)
  then show ?thesis by (simp add: xs)
qed

lemma strip_ends:
  assumes "strip s \<noteq> []"
  shows "\<not> isspace (hd (strip s)) \<and> \<not> isspace (last (strip s))"
proof -
  let ?t = "dropWhile isspace s"
  from assms have "dropWhile isspace (rev ?t) \<noteq> []" by (simp add: strip_unfold)
  then have "rev ?t \<noteq> []" by (cases "rev ?t") simp_all
  then have t: "?t \<noteq> []" by (simp del: dropWhile_eq_Nil_conv)
  then have h: "\<not> isspace (hd ?t)" by (rule hd_dropWhile)
  from dropWhile_rev_keeps_head [of "dropWhile isspace s" isspace, OF t h]
  have "hd (strip s) = hd ?t" by (simp add: strip_unfold)
  moreover have "dropWhile isspace (rev ?t) \<noteq> []" using assms by (simp add: strip_unfold)
  then have "\<not> isspace (hd (dropWhile isspace (rev ?t)))" by (rule hd_dropWhile)
  then have "\<not> isspace (last (strip s))"
    using assms by (simp add: strip_unfold last_rev)
  ultimately show ?thesis using h by simp
qed

lemma stripped_nonempty_strip: "strip s \<noteq> [] \<Longrightarrow> stripped_nonempty (strip s)"
  using strip_ends [of s] by (simp add: stripped_nonempty_def)

lemma persisted_ok_form_record:
  "strip a \<noteq> [] \<Longrightarrow> strip b \<noteq> [] \<Longrightarrow> strip c \<noteq> [] \<Longrightarrow>
   persisted_ok (form_record (strip a) (strip b) (strip c) ext ddi)"
  by (simp add: persisted_ok_def form_record_def Let_def stripped_nonempty_strip
      fmlookup_of_list)

lemma list_all_update: "list_all P xs \<Longrightarrow> P x \<Longrightarrow> list_all P (xs[i := x])"
  using set_update_subset_insert [of xs i x] by (auto simp: list_all_iff)

text \<open>
  Claim C10, as amended. When \<open>save_new\<close> or \<open>update_record\<close> has persisted (it ends
  with \<open>Saved\<close>), the record file holds the table of the records that were loaded, with
  the record of the form put in front (save) or put at the selected index (update). The
  record of the form has a full name, a machine name and a password that are not empty
  and neither begin nor end with whitespace, its user name is \<open>make_username\<close> of its
  full name, and its email is the user name followed by \<open>@totalassist.co.uk\<close>. The
  loaded records are written back as they were loaded, without a check: every record
  written has the invariant if every loaded record had it. The full name of the form
  is taken to hold none of the two characters whose title case is no code point of the
  model.
\<close>

theorem save_update_persist_ok:
  assumes "\<forall>c \<in> set (ent_full f). totitle c \<noteq> None"
  shows "(save_new os f w = (Inr Saved, w') \<longrightarrow>
      (\<exists>rec old text.
         fst (load_records w) = Inr old
         \<and> write_table (rec # old) = (None, text)
         \<and> files w' (DB_FILE w') = Some (Text text)
         \<and> rec = form_record (strip (ent_full f)) (strip (ent_pc f)) (strip (ent_pass f))
                   (strip (ent_ext f)) (strip (ent_ddi f))
         \<and> persisted_ok rec
         \<and> (list_all persisted_ok old \<longrightarrow> list_all persisted_ok (rec # old))))
   \<and> (update_record current_index os f w = (Inr Saved, w') \<longrightarrow>
      (\<exists>rec old text i.
         current_index = Some (int i) \<and> i < length old
         \<and> fst (load_records w) = Inr old
         \<and> write_table (old[i := rec]) = (None, text)
         \<and> files w' (DB_FILE w') = Some (Text text)
         \<and> rec = form_record (strip (ent_full f)) (strip (ent_pc f)) (strip (ent_pass f))
                   (strip (ent_ext f)) (strip (ent_ddi f))
         \<and> persisted_ok rec
         \<and> (list_all persisted_ok old \<longrightarrow> list_all persisted_ok (old[i := rec]))))"
proof (intro conjI impI)
  let ?rec = "form_record (strip (ent_full f)) (strip (ent_pc f)) (strip (ent_pass f))
                (strip (ent_ext f)) (strip (ent_ddi f))"
  assume s: "save_new os f w = (Inr Saved, w')"
  then have ne: "strip (ent_full f) \<noteq> []" "strip (ent_pc f) \<noteq> []" "strip (ent_pass f) \<noteq> []"
    by (auto simp: save_new_def Let_def split: if_splits)
  from s ne obtain old w1 where l: "load_records w = (Inr old, w1)"
    by (auto simp: save_new_def Let_def split: prod.splits sum.splits)
  from s ne l obtain u where sv: "save_records os (?rec # old) w1 = (Inr u, w')"
    by (auto simp: save_new_def Let_def split: prod.splits sum.splits)
  from save_records_done [OF sv] obtain tbl
    where "write_table (?rec # old) = (None, tbl)" "files w' (DB_FILE w') = Some (Text tbl)"
    by auto
  moreover have ok: "persisted_ok ?rec" using ne by (rule persisted_ok_form_record)
  moreover from ok have "list_all persisted_ok old \<longrightarrow> list_all persisted_ok (?rec # old)"
    by simp
  ultimately show "\<exists>rec old text.
         fst (load_records w) = Inr old
         \<and> write_table (rec # old) = (None, text)
         \<and> files w' (DB_FILE w') = Some (Text text)
         \<and> rec = ?rec \<and> persisted_ok rec
         \<and> (list_all persisted_ok old \<longrightarrow> list_all persisted_ok (rec # old))"
    using l by (intro exI [of _ ?rec] exI [of _ old] exI [of _ tbl]) simp
next
  let ?rec = "form_record (strip (ent_full f)) (strip (ent_pc f)) (strip (ent_pass f))
                (strip (ent_ext f)) (strip (ent_ddi f))"
  assume s: "update_record current_index os f w = (Inr Saved, w')"
  then obtain j where j: "current_index = Some j"
    by (cases current_index) (auto simp: update_record_def)
  from s j have ne: "strip (ent_full f) \<noteq> []" "strip (ent_pc f) \<noteq> []" "strip (ent_pass f) \<noteq> []"
    by (auto simp: update_record_def Let_def split: if_splits)
  from s j ne obtain old w1 where l: "load_records w = (Inr old, w1)"
    by (auto simp: update_record_def Let_def split: prod.splits sum.splits)
  from s j ne l have range: "0 \<le> j" "j < int (length old)"
    by (auto simp: update_record_def Let_def split: prod.splits sum.splits if_splits)
  with s j ne l obtain u where sv: "save_records os (old[nat j := ?rec]) w1 = (Inr u, w')"
    by (auto simp: update_record_def Let_def split: prod.splits sum.splits)
  from save_records_done [OF sv] obtain tbl
    where "write_table (old[nat j := ?rec]) = (None, tbl)"
      "files w' (DB_FILE w') = Some (Text tbl)"
    by auto
  moreover have ok: "persisted_ok ?rec" using ne by (rule persisted_ok_form_record)
  moreover from ok
  have "list_all persisted_ok old \<longrightarrow> list_all persisted_ok (old[nat j := ?rec])"
    by (simp add: list_all_update)
  moreover have "current_index = Some (int (nat j))" "nat j < length old"
    using j range by simp_all
  ultimately show "\<exists>rec old text i.
         current_index = Some (int i) \<and> i < length old
         \<and> fst (load_records w) = Inr old
         \<and> write_table (old[i := rec]) = (None, text)
         \<and> files w' (DB_FILE w') = Some (Text text)
         \<and> rec = ?rec \<and> persisted_ok rec
         \<and> (list_all persisted_ok old \<longrightarrow> list_all persisted_ok (old[i := rec]))"
    using l by (intro exI [of _ ?rec] exI [of _ old] exI [of _ tbl] exI [of _ "nat j"]) simp
qed

lemmas store_eval =
  load_records_def save_records_def ensure_db_def write_csv_def write_table_def
  dict_to_list_def dict_get_def writerow_def join_append_def needs_quote_def FIELDS_def
  with_suffix_def path_name_def path_dir_def name_suffix_def os_replace_def


theorem save_update_persist_ok_witness:
  "fst (save_new \<lparr>tmp_write = Completes, replace_ok = True, rewrite = Completes\<rparr>
          \<lparr>ent_full = '' ann lee '', ent_pc = ''PC-01'', ent_pass = ''Pw1!'', ent_ext = [],
           ent_ddi = []\<rparr>
          \<lparr>files = Map.empty, DB_FILE = ''db.csv''\<rparr>) = Inr Saved
   \<and> persisted_ok (form_record ''ann lee'' ''PC-01'' ''Pw1!'' [] [])
   \<and> fmlookup (items (form_record ''ann lee'' ''PC-01'' ''Pw1!'' [] [])) ''email''
       = Some (PyStr ''Ann.Lee@totalassist.co.uk'')
   \<and> fst (update_record (Some 0)
          \<lparr>tmp_write = Completes, replace_ok = True, rewrite = Completes\<rparr>
          \<lparr>ent_full = ''Ann Lee'', ent_pc = '' PC-07'', ent_pass = ''Pw2?'', ent_ext = ''12'',
           ent_ddi = []\<rparr>
          \<lparr>files = [''db.csv'' \<mapsto>
                     Text (''full_name,username,password,pc_name,ext,ddi,email'' @ [CR, LF]
                     @ ''Ann Lee,Ann.Lee,Pw1!,PC-01,,,Ann.Lee@totalassist.co.uk'' @ [CR, LF])],
           DB_FILE = ''db.csv''\<rparr>) = Inr Saved
   \<and> persisted_ok (form_record ''Ann Lee'' ''PC-07'' ''Pw2?'' ''12'' [])"
proof -
  let ?os = "\<lparr>tmp_write = Completes, replace_ok = True, rewrite = Completes\<rparr>"
  let ?f = "\<lparr>ent_full = '' ann lee '', ent_pc = ''PC-01'', ent_pass = ''Pw1!'', ent_ext = [],
           ent_ddi = []\<rparr>"
  let ?w = "\<lparr>files = Map.empty, DB_FILE = ''db.csv''\<rparr>"
  let ?g = "\<lparr>ent_full = ''Ann Lee'', ent_pc = '' PC-07'', ent_pass = ''Pw2?'', ent_ext = ''12'',
           ent_ddi = []\<rparr>"
  let ?v = "\<lparr>files = [''db.csv'' \<mapsto>
                     Text (''full_name,username,password,pc_name,ext,ddi,email'' @ [CR, LF]
                     @ ''Ann Lee,Ann.Lee,Pw1!,PC-01,,,Ann.Lee@totalassist.co.uk'' @ [CR, LF])],
           DB_FILE = ''db.csv''\<rparr>"
  have s: "strip '' ann lee '' = ''ann lee''" "strip ''PC-01'' = ''PC-01''"
    "strip ''Pw1!'' = ''Pw1!''" "strip [] = []" "strip ''Ann Lee'' = ''Ann Lee''"
    "strip '' PC-07'' = ''PC-07''" "strip ''Pw2?'' = ''Pw2?''" "strip ''12'' = ''12''"
    by (simp_all add: strip_unfold isspace_def)
  have u: "make_username ''ann lee'' = ''Ann.Lee''" "make_username ''Ann Lee'' = ''Ann.Lee''"
    by code_simp+
  have rf: "\<forall>c \<in> set (ent_full ?f). totitle c \<noteq> None"
    and rg: "\<forall>c \<in> set (ent_full ?g). totitle c \<noteq> None"
    by (simp_all add: totitle_def)
  have ev: "fst (save_new ?os ?f ?w) = Inr Saved"
    by (simp add: save_new_def s form_record_def u store_eval csv_reader_eval)
  then have "save_new ?os ?f ?w = (Inr Saved, snd (save_new ?os ?f ?w))"
    by (simp add: prod_eq_iff)
  with save_update_persist_ok [OF rf, of ?os ?w "snd (save_new ?os ?f ?w)"]
  have a: "persisted_ok (form_record ''ann lee'' ''PC-01'' ''Pw1!'' [] [])"
    by (auto simp: s)
  have b: "fmlookup (items (form_record ''ann lee'' ''PC-01'' ''Pw1!'' [] [])) ''email''
       = Some (PyStr ''Ann.Lee@totalassist.co.uk'')"
    by (simp add: form_record_def u fmlookup_of_list)
  have eu: "fst (update_record (Some 0) ?os ?g ?v) = Inr Saved"
    by (simp add: update_record_def s form_record_def u store_eval csv_reader_eval dict_row_def)
  then have "update_record (Some 0) ?os ?g ?v = (Inr Saved, snd (update_record (Some 0) ?os ?g ?v))"
    by (simp add: prod_eq_iff)
  with save_update_persist_ok [OF rg, of ?os ?v "snd (update_record (Some 0) ?os ?g ?v)"
      "Some 0"]
  have c: "persisted_ok (form_record ''Ann Lee'' ''PC-07'' ''Pw2?'' ''12'' [])"
    by (auto simp: s)
  from ev a b eu c show ?thesis by blast
qed


text \<open>
  The claim as it was worded, of every record written, fails on a record file that holds
  a row of seven empty cells, as another program or an edit by hand may have left it.
  \<open>save_new\<close> loads that record, puts the record of the form before it and writes both
  back: the record file then holds, after the new row, the row without a name, a
  machine and a password.
\<close>

theorem save_update_persist_ok_counterexample:
  "(case fst (load_records
       \<lparr>files = [''db.csv'' \<mapsto>
                  Text (''full_name,username,password,pc_name,ext,ddi,email'' @ [CR, LF]
                  @ '',,,,,,'' @ [CR, LF])],
        DB_FILE = ''db.csv''\<rparr>)
     of Inl e \<Rightarrow> []
      | Inr recs \<Rightarrow> map (\<lambda>rec. (fmlookup (items rec) ''full_name'', persisted_ok rec)) recs)
     = [(Some (PyStr []), False)]
   \<and> (case save_new \<lparr>tmp_write = Completes, replace_ok = True, rewrite = Completes\<rparr>
          \<lparr>ent_full = ''Ann Lee'', ent_pc = ''PC-01'', ent_pass = ''Pw1!'', ent_ext = [],
           ent_ddi = []\<rparr>
          \<lparr>files = [''db.csv'' \<mapsto>
                     Text (''full_name,username,password,pc_name,ext,ddi,email'' @ [CR, LF]
                     @ '',,,,,,'' @ [CR, LF])],
           DB_FILE = ''db.csv''\<rparr>
        of (r, w') \<Rightarrow> (r, files w' ''db.csv''))
     = (Inr Saved,
        Some (Text (''full_name,username,password,pc_name,ext,ddi,email'' @ [CR, LF]
          @ ''Ann Lee,Ann.Lee,Pw1!,PC-01,,,Ann.Lee@totalassist.co.uk'' @ [CR, LF]
          @ '',,,,,,'' @ [CR, LF])))"
proof -
  have s: "strip ''Ann Lee'' = ''Ann Lee''" "strip ''PC-01'' = ''PC-01''"
    "strip ''Pw1!'' = ''Pw1!''" "strip [] = []"
    by (simp_all add: strip_unfold isspace_def)
  have u: "make_username ''Ann Lee'' = ''Ann.Lee''" by code_simp
  have a: "(case fst (load_records
       \<lparr>files = [''db.csv'' \<mapsto>
                  Text (''full_name,username,password,pc_name,ext,ddi,email'' @ [CR, LF]
                  @ '',,,,,,'' @ [CR, LF])],
        DB_FILE = ''db.csv''\<rparr>)
     of Inl e \<Rightarrow> []
      | Inr recs \<Rightarrow> map (\<lambda>rec. (fmlookup (items rec) ''full_name'', persisted_ok rec)) recs)
     = [(Some (PyStr []), False)]"
    by (simp add: load_records_def ensure_db_def csv_reader_eval dict_row_def persisted_ok_def
        stripped_nonempty_def)
  have b: "(case save_new \<lparr>tmp_write = Completes, replace_ok = True, rewrite = Completes\<rparr>
          \<lparr>ent_full = ''Ann Lee'', ent_pc = ''PC-01'', ent_pass = ''Pw1!'', ent_ext = [],
           ent_ddi = []\<rparr>
          \<lparr>files = [''db.csv'' \<mapsto>
                     Text (''full_name,username,password,pc_name,ext,ddi,email'' @ [CR, LF]
                     @ '',,,,,,'' @ [CR, LF])],
           DB_FILE = ''db.csv''\<rparr>
        of (r, w') \<Rightarrow> (r, files w' ''db.csv''))
     = (Inr Saved,
        Some (Text (''full_name,username,password,pc_name,ext,ddi,email'' @ [CR, LF]
          @ ''Ann Lee,Ann.Lee,Pw1!,PC-01,,,Ann.Lee@totalassist.co.uk'' @ [CR, LF]
          @ '',,,,,,'' @ [CR, LF])))"
    by (simp add: save_new_def s form_record_def u store_eval csv_reader_eval dict_row_def
        fmlookup_of_list)
  from a b show ?thesis by (rule conjI)
qed

section \<open>Proofs: failure of the temporary write\<close>

text \<open>
  When the temporary file is another file than the record file, a write that fails in it
  leaves the record file as it was.
\<close>

lemma save_records_temp_failure:
  assumes old: "files w (DB_FILE w) = Some old"
      and tmp: "with_suffix (DB_FILE w) ''.tmp'' = Inr tmp"
      and other: "tmp \<noteq> DB_FILE w"
      and fails: "fst (write_csv tmp records (tmp_write os) w) = Inl e"
  shows "fst (save_records os records w) = Inl e
         \<and> files (snd (save_records os records w)) (DB_FILE w) = Some old"
proof -
  have w: "ensure_db (DB_FILE w) w = w" using old by (rule ensure_db_existing)
  obtain r w' where r: "write_csv tmp records (tmp_write os) w = (r, w')"
    by (cases "write_csv tmp records (tmp_write os) w")
  with fails have e: "r = Inl e" by simp
  have "files w' (DB_FILE w) = files w (DB_FILE w)"
    using write_csv_other [of "DB_FILE w" tmp records "tmp_write os" w] other r by simp
  with old e r tmp w show ?thesis
    by (simp add: save_records_def)
qed

text \<open>
  The temporary file is the record file itself when the name of the record file already
  ends in \<open>.tmp\<close>.
\<close>

lemma with_suffix_tmp_same: "with_suffix ''db.tmp'' ''.tmp'' = Inr ''db.tmp''"
  by (simp add: with_suffix_def path_name_def path_dir_def name_suffix_def)

text \<open>
  Claim C6 fails for a record file named \<open>db.tmp\<close>: the temporary file of the save is
  that same file, opening it for writing empties it, and a write that fails after ten
  characters leaves those ten characters where the saved record was.
\<close>

theorem save_records_clobbers_tmp_named_file:
  "(case save_records \<lparr>tmp_write = FailsAfter 10, replace_ok = True, rewrite = Completes\<rparr>
          [form_record ''Bob Ray'' ''PC-02'' ''pw2'' [] []]
          \<lparr>files = [''db.tmp'' \<mapsto>
                     Text (''full_name,username,password,pc_name,ext,ddi,email'' @ [CR, LF]
                     @ ''Ann Lee,Ann.Lee,Pw1!,PC-01,,,Ann.Lee@totalassist.co.uk'' @ [CR, LF])],
           DB_FILE = ''db.tmp''\<rparr>
    of (r, w') \<Rightarrow> (r, files w' ''db.tmp''))
   = (Inl OSError, Some (Text ''full_name,''))"
  by (simp add: form_record_def store_eval fmlookup_of_list)

section \<open>Proofs: reading as a sequence of events\<close>

lemma feed_chars:
  "feed rd (map Some l @ es)
     = (case parse_chars rd l of Inl e \<Rightarrow> Inl e | Inr rd' \<Rightarrow> feed rd' es)"
  by (induction l arbitrary: rd) (simp_all split: sum.splits)

lemma reader_loop_feed:
  "reader_loop rd lines = feed rd (concat (map (\<lambda>l. map Some l @ [None]) lines))"
proof (induction lines arbitrary: rd)
  case Nil
  show ?case by simp
next
  case (Cons l lines)
  show ?case
    by (simp add: feed_chars parse_line_def Cons.IH cons_row_def split: sum.splits)
qed

lemma events_not_LF:
  "c \<noteq> LF \<Longrightarrow> p \<noteq> AfterCR \<Longrightarrow>
   events p (c # cs) = Some c # events (if c = CR then AfterCR else InLine) cs"
  by simp

lemma events_AfterCR:
  "events AfterCR cs = (case cs of [] \<Rightarrow> [None]
      | c # cs' \<Rightarrow> if c = LF then Some c # None # events AtStart cs' else None # events AtStart cs)"
  by (cases cs) auto

lemma events_lines_loop:
  "concat (map (\<lambda>l. map Some l @ [None]) (lines_loop cur s))
     = map Some cur @ events (if cur = [] then AtStart else InLine) s"
proof (induction cur s rule: lines_loop.induct)
  case (1 cur)
  show ?case by simp
next
  case (2 cur c)
  show ?case by simp
next
  case (3 cur c d ds)
  show ?case
  proof (cases "c = LF")
    case True
    with 3 show ?thesis by simp
  next
    case nl: False
    show ?thesis
    proof (cases "c = CR")
      case True
      with 3 nl show ?thesis by (cases "d = LF") simp_all
    next
      case False
      with 3 nl show ?thesis by simp
    qed
  qed
qed

lemma csv_reader_feed: "csv_reader (readlines s) = feed parse_reset (events AtStart s)"
  using events_lines_loop [of "[]" s]
  by (simp add: csv_reader_def readlines_def reader_loop_feed)

section \<open>Proofs: loading never fails for missing columns\<close>

lemma outcome_ok_cons_row [simp]: "outcome_ok b (cons_row r res) = outcome_ok b res"
  by (simp add: outcome_ok_def cons_row_def split: sum.splits)

lemma outcome_ok_Inr [simp]: "outcome_ok b (Inr rows)"
  by (simp add: outcome_ok_def)

lemmas step_defs =
  parse_process_char_def start_field_def parse_add_char_def parse_save_field_def
  end_of_line_def after_line_def

lemma step_error:
  assumes "parse_process_char rd e = Inl x"
  shows "x = CsvError FieldLargerThanLimit \<and> field_limit \<le> length (pfield rd) \<and> e \<noteq> None
         \<or> pstate rd = EAT_CRNL \<and> e \<noteq> None \<and> e \<noteq> Some LF \<and> e \<noteq> Some CR"
  using assms
  by (cases "pstate rd") (auto simp: step_defs split: if_splits sum.splits)

lemma step_None:
  assumes "parse_process_char rd None = Inr rd'"
  shows "pstate rd' \<noteq> EAT_CRNL \<and> length (pfield rd') \<le> length (pfield rd)"
  using assms
  by (cases "pstate rd") (auto simp: step_defs split: if_splits sum.splits)

lemma step_char:
  assumes "parse_process_char rd (Some c) = Inr rd'"
  shows "(pstate rd' = EAT_CRNL \<longrightarrow> c = CR \<or> c = LF)
         \<and> length (pfield rd') \<le> Suc (length (pfield rd))"
  using assms
  by (cases "pstate rd") (auto simp: step_defs split: if_splits sum.splits)

lemma pfield_parse_reset [simp]: "pfield parse_reset = []" "pstate parse_reset = START_RECORD"
  by (simp_all add: parse_reset_def)

text \<open>One character that is not a line feed, read in a state that is not \<open>EAT_CRNL\<close>.\<close>

lemma feed_char_ok:
  assumes st: "pstate rd \<noteq> EAT_CRNL"
      and len: "b \<longrightarrow> length (pfield rd) < field_limit"
      and rest: "\<And>rd'. parse_process_char rd (Some c) = Inr rd' \<Longrightarrow> outcome_ok b (feed rd' es)"
  shows "outcome_ok b (feed rd (Some c # es))"
proof (cases "parse_process_char rd (Some c)")
  case (Inl x)
  with step_error [OF Inl] st len show ?thesis
    by (auto simp: outcome_ok_def)
next
  case (Inr rd')
  with rest [OF Inr] show ?thesis by simp
qed

text \<open>The end of a line.\<close>

lemma feed_eol_ok:
  assumes rest: "\<And>rd'. parse_process_char rd None = Inr rd' \<Longrightarrow>
                   outcome_ok b (feed rd' es) \<and> outcome_ok b (feed parse_reset es)"
  shows "outcome_ok b (feed rd (None # es))"
proof (cases "parse_process_char rd None")
  case (Inl x)
  with step_error [OF Inl] show ?thesis by auto
next
  case (Inr rd')
  with rest [OF Inr] show ?thesis by simp
qed

lemma feed_events_ok:
  assumes "pstate rd = EAT_CRNL \<longrightarrow> p = AfterCR"
      and "b \<longrightarrow> length (pfield rd) + length s \<le> field_limit"
  shows "outcome_ok b (feed rd (events p s))"
  using assms
proof (induction s arbitrary: rd p)
  case Nil
  show ?case
  proof (cases "p = AtStart")
    case True
    then show ?thesis by simp
  next
    case False
    have "outcome_ok b (feed rd [None])"
      by (rule feed_eol_ok) simp
    with False show ?thesis by simp
  qed
next
  case (Cons c cs)
  have reset: "b \<longrightarrow> length (pfield parse_reset) + length cs \<le> field_limit"
    using Cons.prems(2) by auto
  show ?case
  proof (cases "c = LF")
    case True
    have "outcome_ok b (feed rd (Some c # None # events AtStart cs))"
    proof (cases "parse_process_char rd (Some c)")
      case (Inl x)
      with step_error [OF Inl] True Cons.prems(2) show ?thesis
        by (auto simp: outcome_ok_def)
    next
      case (Inr rd1)
      have "outcome_ok b (feed rd1 (None # events AtStart cs))"
      proof (rule feed_eol_ok, intro conjI)
        fix rd2 assume s2: "parse_process_char rd1 None = Inr rd2"
        from step_char [OF Inr] step_None [OF s2] Cons.prems(2)
        have "pstate rd2 \<noteq> EAT_CRNL" "b \<longrightarrow> length (pfield rd2) + length cs \<le> field_limit"
          by auto
        then show "outcome_ok b (feed rd2 (events AtStart cs))"
          by (intro Cons.IH) simp_all
        show "outcome_ok b (feed parse_reset (events AtStart cs))"
          using reset by (intro Cons.IH) simp_all
      qed
      with Inr show ?thesis by simp
    qed
    with True show ?thesis by simp
  next
    case False
    let ?p' = "if c = CR then AfterCR else InLine"
    have char: "outcome_ok b (feed r (Some c # events ?p' cs))"
      if r: "pstate r \<noteq> EAT_CRNL" "b \<longrightarrow> length (pfield r) + length (c # cs) \<le> field_limit"
      for r
    proof (rule feed_char_ok)
      show "pstate r \<noteq> EAT_CRNL" by (rule r)
      show "b \<longrightarrow> length (pfield r) < field_limit" using r(2) by auto
      fix rd' assume s1: "parse_process_char r (Some c) = Inr rd'"
      from step_char [OF s1] False r(2)
      have "pstate rd' = EAT_CRNL \<longrightarrow> ?p' = AfterCR"
        "b \<longrightarrow> length (pfield rd') + length cs \<le> field_limit"
        by auto
      then show "outcome_ok b (feed rd' (events ?p' cs))" by (rule Cons.IH)
    qed
    show ?thesis
    proof (cases "p = AfterCR")
      case True
      have "outcome_ok b (feed rd (None # Some c # events ?p' cs))"
      proof (rule feed_eol_ok, intro conjI)
        fix rd1 assume s1: "parse_process_char rd None = Inr rd1"
        from step_None [OF s1] Cons.prems(2)
        show "outcome_ok b (feed rd1 (Some c # events ?p' cs))"
          by (intro char) auto
        show "outcome_ok b (feed parse_reset (Some c # events ?p' cs))"
          using Cons.prems(2) by (intro char) auto
      qed
      with True False show ?thesis by simp
    next
      case notcr: False
      with Cons.prems(1) have "pstate rd \<noteq> EAT_CRNL" by auto
      then have "outcome_ok b (feed rd (Some c # events ?p' cs))"
        using Cons.prems(2) by (rule char)
      with notcr False show ?thesis by simp
    qed
  qed
qed

lemma csv_reader_ok:
  "outcome_ok (length s \<le> field_limit) (csv_reader (readlines s))"
  unfolding csv_reader_feed by (rule feed_events_ok) simp_all

lemma dict_zip_dom: "fmdom' (dict_zip d ks vs) \<subseteq> fmdom' d \<union> set ks"
  by (induction d ks vs rule: dict_zip.induct) auto

lemma set_restval_dom: "fmdom' (set_restval d ks) \<subseteq> fmdom' d \<union> set ks"
  by (induction d ks rule: set_restval.induct) auto

lemma dict_row_dom: "fmdom' (items (dict_row hdr row)) \<subseteq> set hdr"
proof -
  have a: "fmdom' (dict_zip fmempty hdr row) \<subseteq> set hdr"
    using dict_zip_dom [of fmempty hdr row] by simp
  have "fmdom' (set_restval (dict_zip fmempty hdr row) (drop (length row) hdr)) \<subseteq> set hdr"
    using set_restval_dom [of "dict_zip fmempty hdr row" "drop (length row) hdr"] a
      set_drop_subset [of "length row" hdr]
    by blast
  with a show ?thesis by (simp add: dict_row_def Let_def)
qed

lemma dict_reader_missing:
  assumes "rec \<in> set (dict_reader (hdr # rows))" and "column \<notin> set hdr"
  shows "fmlookup (items rec) column = None"
proof -
  from assms(1) obtain row where "rec = dict_row hdr row" by auto
  with dict_row_dom [of hdr row] assms(2) have "column \<notin> fmdom' (items rec)" by auto
  then show ?thesis by (rule fmdom'_notD)
qed


text \<open>
  The reader fails only at the limit of a field: the text then has a beginning that
  reads, as a file of its own, to rows the last field of which holds as many characters
  as the limit allows, and it goes on with a character that the reader would add.
\<close>

lemma csv_reader_error:
  "csv_reader (readlines s) = Inl x \<Longrightarrow> x = CsvError FieldLargerThanLimit"
  using csv_reader_ok [of s] by (simp add: outcome_ok_def)

lemma reader_inv_reset [simp]: "reader_inv parse_reset"
  by (simp add: reader_inv_def parse_reset_def)

lemma reader_inv_step:
  assumes "reader_inv rd" and "parse_process_char rd e = Inr rd'"
  shows "reader_inv rd'"
  using assms
  by (cases "pstate rd") (auto simp: reader_inv_def step_defs split: if_splits sum.splits)

lemma step_limit:
  assumes "reader_inv rd" and "parse_process_char rd e = Inl (CsvError FieldLargerThanLimit)"
  shows "length (pfield rd) = field_limit \<and> (\<exists>c. e = Some c)
         \<and> (pstate rd = IN_FIELD \<or> pstate rd = IN_QUOTED_FIELD
              \<or> pstate rd = QUOTE_IN_QUOTED_FIELD)"
  using assms
  by (cases "pstate rd")
     (auto simp: reader_inv_def step_defs field_limit_def split: if_splits sum.splits)

lemma flush_at_limit:
  assumes "length (pfield rd) = field_limit"
      and "pstate rd = IN_FIELD \<or> pstate rd = IN_QUOTED_FIELD \<or> pstate rd = QUOTE_IN_QUOTED_FIELD"
  shows "feed rd [] = Inr [pfields rd @ [pfield rd]]"
    and "feed rd [None] = Inr [pfields rd @ [pfield rd]]"
proof -
  from assms(1) have ne: "pfield rd \<noteq> []" by (auto simp: field_limit_def)
  then show "feed rd [] = Inr [pfields rd @ [pfield rd]]"
    by (simp add: parse_save_field_def)
  from assms(2) ne show "feed rd [None] = Inr [pfields rd @ [pfield rd]]"
    by (auto simp: step_defs cons_row_def)
qed

lemma feed_limit_prefix:
  assumes "reader_inv rd" and "feed rd es = Inl (CsvError FieldLargerThanLimit)"
  shows "\<exists>es1 c es2 rows row field.
           es = es1 @ Some c # es2 \<and> length field = field_limit
           \<and> feed rd es1 = Inr (rows @ [row @ [field]])
           \<and> feed rd (es1 @ [None]) = Inr (rows @ [row @ [field]])"
  using assms
proof (induction es arbitrary: rd)
  case Nil
  then show ?case by (simp split: if_splits)
next
  case (Cons e es)
  show ?case
  proof (cases "parse_process_char rd e")
    case (Inl y)
    with Cons.prems(2) have "parse_process_char rd e = Inl (CsvError FieldLargerThanLimit)"
      by simp
    from step_limit [OF Cons.prems(1) this] obtain c
      where len: "length (pfield rd) = field_limit" and e: "e = Some c"
        and st: "pstate rd = IN_FIELD \<or> pstate rd = IN_QUOTED_FIELD
                   \<or> pstate rd = QUOTE_IN_QUOTED_FIELD"
      by blast
    from flush_at_limit [OF len st]
    have "feed rd [] = Inr ([] @ [pfields rd @ [pfield rd]])"
      and "feed rd ([] @ [None]) = Inr ([] @ [pfields rd @ [pfield rd]])"
      by simp_all
    with len e show ?thesis by blast
  next
    case (Inr rd')
    from Cons.prems(1) Inr have inv': "reader_inv rd'" by (rule reader_inv_step)
    show ?thesis
    proof (cases "e = None \<and> pstate rd' = START_RECORD")
      case True
      with Inr Cons.prems(2)
      have "cons_row (pfields rd') (feed parse_reset es) = Inl (CsvError FieldLargerThanLimit)"
        by simp
      then have "feed parse_reset es = Inl (CsvError FieldLargerThanLimit)"
        by (simp add: cons_row_def split: sum.splits)
      from Cons.IH [OF reader_inv_reset this] obtain es1 c es2 rows row field
        where es: "es = es1 @ Some c # es2" and len: "length field = field_limit"
          and a: "feed parse_reset es1 = Inr (rows @ [row @ [field]])"
          and b: "feed parse_reset (es1 @ [None]) = Inr (rows @ [row @ [field]])"
        by blast
      from True Inr a have "feed rd (e # es1) = Inr ((pfields rd' # rows) @ [row @ [field]])"
        by (simp add: cons_row_def)
      moreover from True Inr b
      have "feed rd ((e # es1) @ [None]) = Inr ((pfields rd' # rows) @ [row @ [field]])"
        by (simp add: cons_row_def)
      moreover from es have "e # es = (e # es1) @ Some c # es2" by simp
      ultimately show ?thesis using len by blast
    next
      case False
      with Inr Cons.prems(2) have "feed rd' es = Inl (CsvError FieldLargerThanLimit)"
        by auto
      from Cons.IH [OF inv' this] obtain es1 c es2 rows row field
        where es: "es = es1 @ Some c # es2" and len: "length field = field_limit"
          and a: "feed rd' es1 = Inr (rows @ [row @ [field]])"
          and b: "feed rd' (es1 @ [None]) = Inr (rows @ [row @ [field]])"
        by blast
      from False Inr a have "feed rd (e # es1) = Inr (rows @ [row @ [field]])" by auto
      moreover from False Inr b
      have "feed rd ((e # es1) @ [None]) = Inr (rows @ [row @ [field]])" by auto
      moreover from es have "e # es = (e # es1) @ Some c # es2" by simp
      ultimately show ?thesis using len by blast
    qed
  qed
qed

lemma events_split:
  "events p s = es1 @ Some c # es2 \<Longrightarrow>
   \<exists>pre post. s = pre @ c # post \<and> (events p pre = es1 \<or> events p pre = es1 @ [None])"
proof (induction s arbitrary: p es1)
  case Nil
  then show ?case by (cases es1) (auto split: if_splits)
next
  case (Cons x xs)
  let ?p' = "if x = CR then AfterCR else InLine"
  show ?case
  proof (cases "x = LF")
    case True
    with Cons.prems have e: "Some LF # None # events AtStart xs = es1 @ Some c # es2" by simp
    show ?thesis
    proof (cases es1)
      case Nil
      with e True have "c = x" by simp
      with Nil show ?thesis
        by (intro exI [of _ "[]"] exI [of _ xs]) auto
    next
      case c1: (Cons a es1')
      with e obtain es1'' where es1: "es1 = Some LF # None # es1''"
        and r: "events AtStart xs = es1'' @ Some c # es2"
        by (cases es1') auto
      from Cons.IH [OF r] obtain pre post where xs: "xs = pre @ c # post"
        and ev: "events AtStart pre = es1'' \<or> events AtStart pre = es1'' @ [None]"
        by blast
      from xs have "x # xs = (x # pre) @ c # post" by simp
      moreover from ev True
      have "events p (x # pre) = es1 \<or> events p (x # pre) = es1 @ [None]"
        by (auto simp: es1)
      ultimately show ?thesis by blast
    qed
  next
    case False
    show ?thesis
    proof (cases "p = AfterCR")
      case True
      with Cons.prems False
      have e: "None # Some x # events ?p' xs = es1 @ Some c # es2" by simp
      then obtain es1' where es1: "es1 = None # es1'"
        and e': "Some x # events ?p' xs = es1' @ Some c # es2"
        by (cases es1) auto
      show ?thesis
      proof (cases es1')
        case Nil
        with e' have "c = x" by simp
        with True Nil es1 show ?thesis
          by (intro exI [of _ "[]"] exI [of _ xs]) auto
      next
        case c2: (Cons b es1'')
        with e' have b: "b = Some x" and r: "events ?p' xs = es1'' @ Some c # es2" by simp_all
        from Cons.IH [OF r] obtain pre post where xs: "xs = pre @ c # post"
          and ev: "events ?p' pre = es1'' \<or> events ?p' pre = es1'' @ [None]"
          by blast
        from xs have "x # xs = (x # pre) @ c # post" by simp
        moreover from ev True False
        have "events p (x # pre) = es1 \<or> events p (x # pre) = es1 @ [None]"
          by (auto simp: es1 c2 b)
        ultimately show ?thesis by blast
      qed
    next
      case notcr: False
      with Cons.prems False
      have e: "Some x # events ?p' xs = es1 @ Some c # es2" by simp
      show ?thesis
      proof (cases es1)
        case Nil
        with e have "c = x" by simp
        with Nil show ?thesis
          by (intro exI [of _ "[]"] exI [of _ xs]) auto
      next
        case c3: (Cons b es1')
        with e have b: "b = Some x" and r: "events ?p' xs = es1' @ Some c # es2" by simp_all
        from Cons.IH [OF r] obtain pre post where xs: "xs = pre @ c # post"
          and ev: "events ?p' pre = es1' \<or> events ?p' pre = es1' @ [None]"
          by blast
        from xs have "x # xs = (x # pre) @ c # post" by simp
        moreover from ev notcr False
        have "events p (x # pre) = es1 \<or> events p (x # pre) = es1 @ [None]"
          by (auto simp: c3 b)
        ultimately show ?thesis by blast
      qed
    qed
  qed
qed

lemma csv_reader_limit_prefix:
  assumes "csv_reader (readlines s) = Inl x"
  shows "\<exists>pre c post rows row field.
           s = pre @ c # post \<and> length field = field_limit
           \<and> csv_reader (readlines pre) = Inr (rows @ [row @ [field]])"
proof -
  from assms csv_reader_error [OF assms]
  have "feed parse_reset (events AtStart s) = Inl (CsvError FieldLargerThanLimit)"
    by (simp add: csv_reader_feed)
  from feed_limit_prefix [OF reader_inv_reset this] obtain es1 c es2 rows row field
    where es: "events AtStart s = es1 @ Some c # es2" and len: "length field = field_limit"
      and a: "feed parse_reset es1 = Inr (rows @ [row @ [field]])"
      and b: "feed parse_reset (es1 @ [None]) = Inr (rows @ [row @ [field]])"
    by blast
  from events_split [OF es] obtain pre post where s: "s = pre @ c # post"
    and ev: "events AtStart pre = es1 \<or> events AtStart pre = es1 @ [None]"
    by blast
  from ev a b have "csv_reader (readlines pre) = Inr (rows @ [row @ [field]])"
    by (auto simp: csv_reader_feed)
  with s len show ?thesis by blast
qed


text \<open>
  Claim C7, as amended. For every record file, \<open>load_records\<close> fails only in two
  ways. Either the reading of the file ends with an exception, which is then the
  exception of the load (its bytes are not UTF-8, or the operating system refuses), or
  the reader of \<open>csv\<close> meets a field that outgrows its limit: the text read has a
  beginning that reads, as a file of its own, to rows the last field of which holds
  all the 131072 characters that the limit allows, and the text goes on. It never fails
  because of the columns. In every record that the load of a text returns, a column
  that the header row lacks has no entry, so that reading it with the default of the
  callers, \<open>rec.get(column, '')\<close>, gives the empty string.
\<close>

theorem load_records_missing_columns:
  assumes "files w (DB_FILE w) = Some stored"
  shows "(\<forall>e. fst (load_records w) = Inl e \<longrightarrow>
            (\<exists>text. stored = Broken text e)
            \<or> e = CsvError FieldLargerThanLimit
              \<and> (\<exists>text pre c post rows row field.
                    (stored = Text text \<or> (\<exists>x. stored = Broken text x))
                    \<and> text = pre @ c # post
                    \<and> csv_reader (readlines pre) = Inr (rows @ [row @ [field]])
                    \<and> length field = field_limit))
         \<and> (\<forall>text hdr rows recs rec column.
               stored = Text text \<and> csv_reader (readlines text) = Inr (hdr # rows)
               \<and> fst (load_records w) = Inr recs \<and> rec \<in> set recs \<and> column \<notin> set hdr
               \<longrightarrow> fmlookup (items rec) column = None
                   \<and> dict_get rec column (PyStr []) = PyStr [])"
proof (intro conjI allI impI)
  have w: "ensure_db (DB_FILE w) w = w"
    using assms by (simp add: ensure_db_def)
  fix e
  assume f: "fst (load_records w) = Inl e"
  show "(\<exists>text. stored = Broken text e)
            \<or> e = CsvError FieldLargerThanLimit
              \<and> (\<exists>text pre c post rows row field.
                    (stored = Text text \<or> (\<exists>x. stored = Broken text x))
                    \<and> text = pre @ c # post
                    \<and> csv_reader (readlines pre) = Inr (rows @ [row @ [field]])
                    \<and> length field = field_limit)"
  proof (cases stored)
    case (Text tx)
    with f assms w have r: "csv_reader (readlines tx) = Inl e"
      by (simp add: load_records_def split: sum.splits)
    from csv_reader_error [OF r] csv_reader_limit_prefix [OF r] Text show ?thesis
      by blast
  next
    case (Broken tx x)
    show ?thesis
    proof (cases "csv_reader (readlines tx)")
      case (Inl y)
      with f assms w Broken have "y = e" by (simp add: load_records_def)
      with Inl have r: "csv_reader (readlines tx) = Inl e" by simp
      from csv_reader_error [OF r] csv_reader_limit_prefix [OF r] Broken show ?thesis
        by blast
    next
      case (Inr rows)
      with f assms w Broken have "x = e" by (simp add: load_records_def)
      with Broken show ?thesis by simp
    qed
  qed
next
  have w: "ensure_db (DB_FILE w) w = w"
    using assms by (simp add: ensure_db_def)
  fix tx hdr rows recs rec column
  assume a: "stored = Text tx \<and> csv_reader (readlines tx) = Inr (hdr # rows)
               \<and> fst (load_records w) = Inr recs \<and> rec \<in> set recs \<and> column \<notin> set hdr"
  with assms w have "recs = dict_reader (hdr # rows)"
    by (auto simp: load_records_def)
  with a have "rec \<in> set (dict_reader (hdr # rows))" "column \<notin> set hdr" by simp_all
  from dict_reader_missing [OF this]
  show "fmlookup (items rec) column = None" "dict_get rec column (PyStr []) = PyStr []"
    by (simp_all add: dict_get_def)
qed

text \<open>A field that outgrows the limit while it is read.\<close>

lemma feed_plain_overflow:
  assumes "pstate rd = IN_FIELD"
      and "c \<noteq> CHR '',''" "c \<noteq> DQUOTE" "c \<noteq> CR" "c \<noteq> LF"
      and "length (pfield rd) \<le> field_limit"
      and "field_limit < length (pfield rd) + n"
  shows "feed rd (events InLine (replicate n c @ follow)) = Inl (CsvError FieldLargerThanLimit)"
  using assms(1,6,7)
proof (induction n arbitrary: rd)
  case 0
  then show ?case by simp
next
  case (Suc n)
  show ?case
  proof (cases "field_limit \<le> length (pfield rd)")
    case True
    with Suc.prems(1) assms(2-5) show ?thesis
      by (simp add: step_defs)
  next
    case False
    let ?rd = "rd\<lparr>pfield := pfield rd @ [c]\<rparr>"
    have "feed ?rd (events InLine (replicate n c @ follow)) = Inl (CsvError FieldLargerThanLimit)"
      using Suc.prems False by (intro Suc.IH) simp_all
    with False Suc.prems(1) assms(2-5) show ?thesis
      by (simp add: step_defs)
  qed
qed


text \<open>
  A file whose only row after the header is one field of 131073 characters.
\<close>

lemma load_records_long_field:
  "fst (load_records
     \<lparr>files = [''db.csv'' \<mapsto> Text (''full_name'' @ [CR, LF] @ CHR ''a'' # replicate 131072 (CHR ''a''))],
      DB_FILE = ''db.csv''\<rparr>)
   = Inl (CsvError FieldLargerThanLimit)"
proof -
  have "feed \<lparr>pstate = IN_FIELD, pfield = ''a'', pfields = []\<rparr>
          (events InLine (replicate 131072 (CHR ''a'') @ []))
        = Inl (CsvError FieldLargerThanLimit)"
    by (rule feed_plain_overflow) (simp_all add: field_limit_def)
  then have "feed parse_reset
          (events AtStart (''full_name'' @ [CR, LF] @ CHR ''a'' # replicate 131072 (CHR ''a'')))
        = Inl (CsvError FieldLargerThanLimit)"
    by (simp add: step_defs parse_reset_def field_limit_def cons_row_def)
  then show ?thesis
    by (simp add: load_records_def ensure_db_def csv_reader_feed)
qed

theorem load_records_missing_columns_witness:
  "fst (load_records
     \<lparr>files = [''db.csv'' \<mapsto> Text (''pc_name,full_name'' @ [CR, LF] @ ''PC-01,Ann Lee'' @ [CR, LF])],
      DB_FILE = ''db.csv''\<rparr>)
   = Inr [\<lparr>items = fmupd ''full_name'' (PyStr ''Ann Lee'') (fmupd ''pc_name'' (PyStr ''PC-01'') fmempty),
           restkey = None\<rparr>]
   \<and> dict_get \<lparr>items = fmupd ''full_name'' (PyStr ''Ann Lee'') (fmupd ''pc_name'' (PyStr ''PC-01'') fmempty),
               restkey = None\<rparr> ''password'' (PyStr []) = PyStr []
   \<and> (\<exists>pre c post rows row field.
         ''full_name'' @ [CR, LF] @ CHR ''a'' # replicate 131072 (CHR ''a'') = pre @ c # post
         \<and> csv_reader (readlines pre) = Inr (rows @ [row @ [field]])
         \<and> length field = field_limit)"
proof -
  let ?text = "''pc_name,full_name'' @ [CR, LF] @ ''PC-01,Ann Lee'' @ [CR, LF]"
  let ?w = "\<lparr>files = [''db.csv'' \<mapsto> Text ?text], DB_FILE = ''db.csv''\<rparr>"
  let ?rec = "\<lparr>items = fmupd ''full_name'' (PyStr ''Ann Lee'') (fmupd ''pc_name'' (PyStr ''PC-01'') fmempty),
               restkey = None\<rparr>"
  let ?long = "''full_name'' @ [CR, LF] @ CHR ''a'' # replicate 131072 (CHR ''a'')"
  let ?v = "\<lparr>files = [''db.csv'' \<mapsto> Text ?long], DB_FILE = ''db.csv''\<rparr>"
  have f: "files ?w (DB_FILE ?w) = Some (Text ?text)" by simp
  have rows: "csv_reader (readlines ?text) = Inr [[''pc_name'', ''full_name''], [''PC-01'', ''Ann Lee'']]"
    by (simp add: csv_reader_eval)
  have a: "fst (load_records ?w) = Inr [?rec]"
    by (simp add: load_records_def ensure_db_def csv_reader_eval dict_row_def)
  have "dict_get ?rec ''password'' (PyStr []) = PyStr []"
    using load_records_missing_columns [OF f, THEN conjunct2, rule_format,
        of ?text "[''pc_name'', ''full_name'']" "[[''PC-01'', ''Ann Lee'']]" "[?rec]" ?rec
        "''password''"] rows a
    by simp
  moreover have g: "files ?v (DB_FILE ?v) = Some (Text ?long)" by simp
  have "\<exists>pre c post rows row field.
         ?long = pre @ c # post
         \<and> csv_reader (readlines pre) = Inr (rows @ [row @ [field]])
         \<and> length field = field_limit"
    using load_records_missing_columns [OF g, THEN conjunct1, rule_format,
        of "CsvError FieldLargerThanLimit"] load_records_long_field
    by auto
  ultimately show ?thesis using a by blast
qed

text \<open>
  The claim as stated fails twice. The header of the first file lacks six of the seven
  columns, and the load fails as a whole, on a field of 131073 characters. The second
  file loads, and its record has no value at all for the missing column \<open>ext\<close>, rather
  than the empty string.
\<close>

theorem load_records_missing_columns_counterexample:
  "fst (load_records
     \<lparr>files = [''db.csv'' \<mapsto> Text (''full_name'' @ [CR, LF] @ CHR ''a'' # replicate 131072 (CHR ''a''))],
      DB_FILE = ''db.csv''\<rparr>)
   = Inl (CsvError FieldLargerThanLimit)
   \<and> (case fst (load_records
          \<lparr>files = [''db.csv'' \<mapsto> Text (''full_name'' @ [CR, LF] @ ''Ann Lee'' @ [CR, LF])],
           DB_FILE = ''db.csv''\<rparr>)
        of Inl e \<Rightarrow> []
         | Inr recs \<Rightarrow> map (\<lambda>rec. (fmlookup (items rec) ''full_name'', fmlookup (items rec) ''ext'')) recs)
     = [(Some (PyStr ''Ann Lee''), None)]"
proof -
  have "(case fst (load_records
          \<lparr>files = [''db.csv'' \<mapsto> Text (''full_name'' @ [CR, LF] @ ''Ann Lee'' @ [CR, LF])],
           DB_FILE = ''db.csv''\<rparr>)
        of Inl e \<Rightarrow> []
         | Inr recs \<Rightarrow> map (\<lambda>rec. (fmlookup (items rec) ''full_name'', fmlookup (items rec) ''ext'')) recs)
     = [(Some (PyStr ''Ann Lee''), None)]"
    by (simp add: load_records_def ensure_db_def csv_reader_eval dict_row_def)
  with load_records_long_field show ?thesis by (rule conjI)
qed

section \<open>Proofs: what is written is read back\<close>

lemma events_start_inline: "follow \<noteq> [] \<Longrightarrow> events AtStart follow = events InLine follow"
  by (cases follow) simp_all

lemma needs_quote_iff:
  "needs_quote f \<longleftrightarrow> (\<exists>c\<in>set f. c = CHR '','' \<or> c = DQUOTE \<or> c = CR \<or> c = LF)"
  by (simp add: needs_quote_def list_ex_iff)

lemma pstate_update_same:
  "pstate rd = st \<Longrightarrow> rd\<lparr>pfield := f, pstate := st\<rparr> = rd\<lparr>pfield := f\<rparr>"
  by (cases rd) simp

text \<open>Characters of an unquoted field, read inside the field.\<close>

lemma feed_plain:
  assumes "pstate rd = IN_FIELD"
      and "\<not> needs_quote xs"
      and "length (pfield rd) + length xs \<le> field_limit"
  shows "feed rd (events InLine (xs @ follow))
           = feed (rd\<lparr>pfield := pfield rd @ xs\<rparr>) (events InLine follow)"
  using assms
proof (induction xs arbitrary: rd)
  case Nil
  then show ?case by simp
next
  case (Cons x xs)
  let ?rd = "rd\<lparr>pfield := pfield rd @ [x]\<rparr>"
  from Cons.prems(2) have x: "x \<noteq> CHR '',''" "x \<noteq> DQUOTE" "x \<noteq> CR" "x \<noteq> LF"
    and xs: "\<not> needs_quote xs"
    by (auto simp: needs_quote_iff)
  have step: "parse_process_char rd (Some x) = Inr ?rd"
    using Cons.prems(1,3) x by (simp add: step_defs)
  have "feed rd (events InLine ((x # xs) @ follow)) = feed ?rd (events InLine (xs @ follow))"
    using x step Cons.prems(1) by simp
  also have "\<dots> = feed (?rd\<lparr>pfield := pfield ?rd @ xs\<rparr>) (events InLine follow)"
    using Cons.prems xs by (intro Cons.IH) simp_all
  finally show ?case by simp
qed

text \<open>
  The content of a quoted field, read inside the quotes, up to and with the closing quote.
  The ends of lines that fall inside the field change nothing.
\<close>

lemma feed_eol_in_quotes:
  "pstate rd = IN_QUOTED_FIELD \<Longrightarrow> feed rd (None # es) = feed rd es"
  by (simp add: step_defs)

lemma feed_quoted:
  assumes "pstate rd = IN_QUOTED_FIELD"
      and "length (pfield rd) + length xs \<le> field_limit"
  shows "feed rd (events p (quote_data xs @ DQUOTE # follow))
           = feed (rd\<lparr>pfield := pfield rd @ xs, pstate := QUOTE_IN_QUOTED_FIELD\<rparr>)
               (events InLine follow)"
  using assms
proof (induction xs arbitrary: rd p)
  case Nil
  have "feed rd (Some DQUOTE # events InLine follow)
          = feed (rd\<lparr>pstate := QUOTE_IN_QUOTED_FIELD\<rparr>) (events InLine follow)"
    using Nil.prems(1) by (simp add: step_defs)
  then show ?case
    using Nil.prems(1) by (cases "p = AfterCR") (simp_all add: feed_eol_in_quotes del: feed.simps)
next
  case (Cons x xs)
  let ?rd = "rd\<lparr>pfield := pfield rd @ [x]\<rparr>"
  have rd: "pstate ?rd = IN_QUOTED_FIELD" "length (pfield ?rd) + length xs \<le> field_limit"
    using Cons.prems by simp_all
  have ih: "feed ?rd (events q (quote_data xs @ DQUOTE # follow))
              = feed (rd\<lparr>pfield := pfield rd @ x # xs, pstate := QUOTE_IN_QUOTED_FIELD\<rparr>)
                  (events InLine follow)" for q
    using Cons.IH [OF rd, of q] by simp
  have len: "\<not> field_limit \<le> length (pfield rd)"
    using Cons.prems(2) by simp
  show ?case
  proof (cases "x = DQUOTE")
    case True
    have "feed rd (Some DQUOTE # Some DQUOTE # events InLine (quote_data xs @ DQUOTE # follow))
            = feed ?rd (events InLine (quote_data xs @ DQUOTE # follow))"
      using Cons.prems(1) len True by (simp add: step_defs pstate_update_same)
    then show ?thesis
      using True Cons.prems(1) ih [of InLine]
      by (cases "p = AfterCR") (simp_all add: feed_eol_in_quotes del: feed.simps)
  next
    case nq: False
    show ?thesis
    proof (cases "x = LF")
      case True
      have "feed rd (Some LF # None # events AtStart (quote_data xs @ DQUOTE # follow))
              = feed ?rd (events AtStart (quote_data xs @ DQUOTE # follow))"
        using Cons.prems(1) len True by (simp add: step_defs)
      then show ?thesis
        using True ih [of AtStart] by (simp del: feed.simps)
    next
      case nl: False
      let ?q = "if x = CR then AfterCR else InLine"
      have "feed rd (Some x # events ?q (quote_data xs @ DQUOTE # follow))
              = feed ?rd (events ?q (quote_data xs @ DQUOTE # follow))"
        using Cons.prems(1) len nq by (simp add: step_defs)
      then show ?thesis
        using nq nl Cons.prems(1) ih [of ?q]
        by (cases "p = AfterCR") (simp_all add: feed_eol_in_quotes del: feed.simps)
    qed
  qed
qed

text \<open>
  The parser after the text of a field, before the delimiter or the end of the row: in
  \<open>QUOTE_IN_QUOTED_FIELD\<close> after a quoted field, in \<open>IN_FIELD\<close> after an unquoted one,
  and where it was after an empty one.
\<close>

lemma feed_field:
  assumes st: "pstate rd = START_FIELD" and emp: "pfield rd = []"
      and len: "length f \<le> field_limit"
      and d: "d = CHR '','' \<or> d = CR"
  shows "feed rd (events InLine (join_append f @ d # follow))
           = feed (after_field rd f) (events InLine (d # follow))"
proof (cases "needs_quote f")
  case True
  let ?rd = "rd\<lparr>pstate := IN_QUOTED_FIELD\<rparr>"
  have "feed rd (events InLine (join_append f @ d # follow))
          = feed ?rd (events InLine (quote_data f @ DQUOTE # (d # follow)))"
    using True st by (simp add: join_append_def step_defs)
  also have "\<dots> = feed (?rd\<lparr>pfield := pfield ?rd @ f, pstate := QUOTE_IN_QUOTED_FIELD\<rparr>)
                      (events InLine (d # follow))"
    using len emp by (intro feed_quoted) simp_all
  finally show ?thesis
    using True emp by (cases rd) (simp add: after_field_def del: feed.simps events.simps)
next
  case False
  show ?thesis
  proof (cases f)
    case Nil
    with False st show ?thesis
      by (simp add: join_append_def after_field_def pstate_update_same del: feed.simps events.simps)
  next
    case (Cons c cs)
    let ?rd = "rd\<lparr>pfield := [c], pstate := IN_FIELD\<rparr>"
    from False Cons have c: "c \<noteq> CHR '',''" "c \<noteq> DQUOTE" "c \<noteq> CR" "c \<noteq> LF"
      and cs: "\<not> needs_quote cs"
      by (auto simp: needs_quote_iff)
    have "0 < field_limit" by (simp add: field_limit_def)
    then have "feed rd (events InLine (join_append f @ d # follow))
            = feed ?rd (events InLine (cs @ d # follow))"
      using False Cons c st emp by (simp add: join_append_def step_defs)
    also have "\<dots> = feed (?rd\<lparr>pfield := pfield ?rd @ cs\<rparr>) (events InLine (d # follow))"
      using cs len Cons by (intro feed_plain) simp_all
    finally show ?thesis
      using False Cons by (cases rd) (simp add: after_field_def del: feed.simps events.simps)
  qed
qed

lemma feed_after_field_comma:
  assumes "pstate rd = START_FIELD" and "pfield rd = []"
  shows "feed (after_field rd f) (events InLine (CHR '','' # follow))
           = feed (rd\<lparr>pfields := pfields rd @ [f]\<rparr>) (events InLine follow)"
  using assms
  by (cases rd) (simp add: after_field_def step_defs)

lemma feed_after_field_crlf:
  assumes "pstate rd = START_FIELD" and "pfield rd = []"
  shows "feed (after_field rd f) (events InLine (CR # LF # follow))
           = cons_row (pfields rd @ [f]) (feed parse_reset (events AtStart follow))"
  using assms
  by (cases rd) (simp add: after_field_def step_defs)

text \<open>A row, read from \<open>START_FIELD\<close>: its fields join those of the record so far.\<close>

lemma feed_row_fields:
  assumes "pstate rd = START_FIELD" and "pfield rd = []"
      and "\<forall>f\<in>set (f # fs). length f \<le> field_limit"
  shows "feed rd (events InLine (str_join '','' (map join_append (f # fs)) @ CR # LF # follow))
           = cons_row (pfields rd @ f # fs) (feed parse_reset (events AtStart follow))"
  using assms
proof (induction fs arbitrary: f rd)
  case Nil
  have "feed rd (events InLine (join_append f @ CR # LF # follow))
          = feed (after_field rd f) (events InLine (CR # LF # follow))"
    using Nil.prems by (intro feed_field) simp_all
  then show ?case
    using feed_after_field_crlf [OF Nil.prems(1,2), of f follow]
    by (simp del: feed.simps events.simps)
next
  case (Cons g gs)
  let ?follow = "str_join '','' (map join_append (g # gs)) @ CR # LF # follow"
  let ?rd = "rd\<lparr>pfields := pfields rd @ [f]\<rparr>"
  have "feed rd (events InLine (join_append f @ CHR '','' # ?follow))
          = feed (after_field rd f) (events InLine (CHR '','' # ?follow))"
    using Cons.prems by (intro feed_field) simp_all
  also have "\<dots> = feed ?rd (events InLine ?follow)"
    using Cons.prems(1,2) by (rule feed_after_field_comma)
  also have "\<dots> = cons_row (pfields ?rd @ g # gs) (feed parse_reset (events AtStart follow))"
    using Cons.prems by (intro Cons.IH) simp_all
  finally show ?case
    by (simp del: feed.simps events.simps)
qed

text \<open>
  A row of two fields or more, read from the start of a record: its first character is
  not the end of a line, so the parser is in \<open>START_FIELD\<close> for it.
\<close>

lemma join_append_first:
  "\<exists>c cs. join_append f @ CHR '','' # follow = c # cs \<and> c \<noteq> CR \<and> c \<noteq> LF"
proof (cases "needs_quote f")
  case True
  then show ?thesis by (simp add: join_append_def)
next
  case False
  then show ?thesis
    by (cases f) (auto simp: join_append_def needs_quote_iff)
qed

lemma feed_start_record:
  assumes "pstate rd = START_RECORD" and "c \<noteq> CR" and "c \<noteq> LF"
  shows "feed rd (events InLine (c # cs)) = feed (rd\<lparr>pstate := START_FIELD\<rparr>) (events InLine (c # cs))"
  using assms by (simp add: parse_process_char_def)

lemma writerow_two:
  "writerow (f # g # gs) = str_join '','' (map join_append (f # g # gs)) @ [CR, LF]"
  by (simp add: writerow_def Let_def)

lemma feed_writerow:
  assumes "\<forall>f\<in>set (f # g # gs). length f \<le> field_limit"
  shows "feed parse_reset (events AtStart (writerow (f # g # gs) @ follow))
           = cons_row (f # g # gs) (feed parse_reset (events AtStart follow))"
proof -
  let ?text = "str_join '','' (map join_append (f # g # gs)) @ CR # LF # follow"
  let ?rd = "parse_reset\<lparr>pstate := START_FIELD\<rparr>"
  obtain c cs where c: "?text = c # cs" "c \<noteq> CR" "c \<noteq> LF"
    using join_append_first [of f "str_join '','' (map join_append (g # gs)) @ CR # LF # follow"]
    by auto
  have "events AtStart ?text = events InLine ?text"
    by (rule events_start_inline) (simp add: c)
  moreover have "feed parse_reset (events InLine ?text) = feed ?rd (events InLine ?text)"
    unfolding c(1) by (rule feed_start_record) (simp_all add: c)
  moreover have "feed ?rd (events InLine ?text)
      = cons_row (pfields ?rd @ f # g # gs) (feed parse_reset (events AtStart follow))"
    using assms by (intro feed_row_fields) (simp_all add: parse_reset_def)
  ultimately show ?thesis
    by (simp add: writerow_two parse_reset_def del: feed.simps events.simps str_join.simps)
qed

text \<open>A table of such rows.\<close>

lemma feed_table:
  assumes "\<forall>row\<in>set rows. 2 \<le> length row \<and> (\<forall>f\<in>set row. length f \<le> field_limit)"
  shows "feed parse_reset (events AtStart (concat (map writerow rows))) = Inr rows"
  using assms
proof (induction rows)
  case Nil
  show ?case by simp
next
  case (Cons row rows)
  from Cons.prems obtain f g gs where row: "row = f # g # gs"
    by (cases row; cases "tl row") auto
  have "feed parse_reset (events AtStart (writerow (f # g # gs) @ concat (map writerow rows)))
          = cons_row (f # g # gs) (feed parse_reset (events AtStart (concat (map writerow rows))))"
    using Cons.prems row by (intro feed_writerow) simp
  also have "\<dots> = Inr (row # rows)"
    using Cons row by (simp add: cons_row_def)
  finally show ?case by (simp add: row)
qed

section \<open>Proofs: store round trip\<close>

lemma is_record_lookup:
  assumes "is_record rec" and "key \<in> set FIELDS"
  shows "fmlookup (items rec) key = Some (PyStr (field_or_empty rec key))"
proof -
  from assms have "case fmlookup (items rec) key of Some (PyStr s) \<Rightarrow> True | _ \<Rightarrow> False"
    by (simp add: is_record_def list_all_iff)
  then show ?thesis
    by (auto simp: field_or_empty_def dict_get_def split: option.splits pyval.splits)
qed

lemma is_record_no_other:
  assumes "is_record rec" and "key \<notin> set FIELDS"
  shows "fmlookup (items rec) key = None"
proof -
  from assms have "key \<notin> fmdom' (items rec)" by (auto simp: is_record_def)
  then show ?thesis by (rule fmdom'_notD)
qed

lemma dict_to_list_record:
  assumes "is_record rec"
  shows "dict_to_list rec = Inr (record_values rec)"
proof -
  have "field_text (dict_get rec key (PyStr [])) = field_or_empty rec key"
    if "key \<in> set FIELDS" for key
    using is_record_lookup [OF assms that] by (simp add: dict_get_def)
  then have "map (\<lambda>key. field_text (dict_get rec key (PyStr []))) FIELDS = record_values rec"
    by (simp add: record_values_def)
  with assms show ?thesis
    by (simp add: dict_to_list_def is_record_def)
qed

lemma writerows_records:
  "\<forall>rec\<in>set records. is_record rec \<Longrightarrow>
   writerows records = (None, concat (map (\<lambda>rec. writerow (record_values rec)) records))"
  by (induction records) (simp_all add: dict_to_list_record)

lemma write_table_records:
  "\<forall>rec\<in>set records. is_record rec \<Longrightarrow>
   write_table records
     = (None, concat (map writerow (FIELDS # map record_values records)))"
  by (simp add: write_table_def writerows_records comp_def)

lemma dict_zip_lookup:
  "length ks = length vs \<Longrightarrow> distinct ks \<Longrightarrow>
   fmlookup (dict_zip d ks vs) key
     = (if key \<in> set ks then map_of (zip ks (map PyStr vs)) key else fmlookup d key)"
proof (induction d ks vs rule: dict_zip.induct)
  case (1 d k ks v vs)
  then show ?case by auto
qed simp_all

lemma distinct_FIELDS: "distinct FIELDS"
  by (simp add: FIELDS_def)

lemma length_record_values [simp]: "length (record_values rec) = 7"
  by (simp add: record_values_def FIELDS_def)

lemma length_FIELDS [simp]: "length FIELDS = 7"
  by (simp add: FIELDS_def)

lemma dict_row_record:
  assumes "is_record rec"
  shows "dict_row FIELDS (record_values rec) = rec"
proof -
  have "fmlookup (dict_zip fmempty FIELDS (record_values rec)) key = fmlookup (items rec) key"
    for key
  proof (cases "key \<in> set FIELDS")
    case True
    have "map_of (zip FIELDS (map PyStr (record_values rec))) key
            = Some (PyStr (field_or_empty rec key))"
      using True distinct_FIELDS
      by (simp add: record_values_def map_of_zip_map)
    with True show ?thesis
      using is_record_lookup [OF assms True] distinct_FIELDS
      by (simp add: dict_zip_lookup)
  next
    case False
    with is_record_no_other [OF assms False] show ?thesis
      using distinct_FIELDS by (simp add: dict_zip_lookup)
  qed
  then have "dict_zip fmempty FIELDS (record_values rec) = items rec"
    by (intro fmap_ext) simp
  moreover have "restkey rec = None" using assms by (simp add: is_record_def)
  ultimately show ?thesis
    by (simp add: dict_row_def)
qed

lemma dict_reader_records:
  assumes "\<forall>rec\<in>set records. is_record rec"
  shows "dict_reader (FIELDS # map record_values records) = records"
proof -
  have "filter (\<lambda>row. row \<noteq> []) (map record_values records) = map record_values records"
    by (simp add: filter_id_conv record_values_def FIELDS_def)
  moreover have "map (dict_row FIELDS) (map record_values records) = records"
    using assms by (induction records) (simp_all add: dict_row_record)
  ultimately show ?thesis by simp
qed

text \<open>
  Claim C1, as amended. For every sequence of records, each with exactly the seven
  fields as strings of at most 131072 characters (the field limit of \<open>csv\<close>), whatever
  characters the strings hold: when \<open>save_records\<close> has completed, through the rename or
  through the rewrite in place, \<open>load_records\<close> returns exactly these records, in the
  same order.
\<close>

theorem save_load_round_trip:
  assumes recs: "\<forall>rec\<in>set records.
                   is_record rec \<and> (\<forall>key\<in>set FIELDS. length (field_or_empty rec key) \<le> field_limit)"
      and saved: "save_records os records w = (Inr u, w')"
  shows "fst (load_records w') = Inr records"
proof -
  let ?rows = "FIELDS # map record_values records"
  from save_records_done [OF saved] obtain tbl
    where tbl: "write_table records = (None, tbl)"
      and stored: "files w' (DB_FILE w) = Some (Text tbl)" and db: "DB_FILE w' = DB_FILE w"
    by blast
  have tbl': "tbl = concat (map writerow ?rows)"
    using tbl recs write_table_records [of records] by simp
  have hdr: "\<forall>f\<in>set FIELDS. length f \<le> field_limit"
    by (simp add: FIELDS_def field_limit_def)
  have "\<forall>f\<in>set (record_values rec). length f \<le> field_limit" if "rec \<in> set records" for rec
    using recs that by (auto simp: record_values_def)
  with hdr have "\<forall>row\<in>set ?rows. 2 \<le> length row \<and> (\<forall>f\<in>set row. length f \<le> field_limit)"
    by auto
  then have "feed parse_reset (events AtStart (concat (map writerow ?rows))) = Inr ?rows"
    by (rule feed_table)
  then have "csv_reader (readlines tbl) = Inr ?rows"
    by (simp only: csv_reader_feed tbl')
  moreover have "ensure_db (DB_FILE w') w' = w'"
    using stored db by (simp add: ensure_db_def)
  ultimately have "fst (load_records w') = Inr (dict_reader ?rows)"
    using stored db by (simp add: load_records_def)
  also have "dict_reader ?rows = records"
    using recs by (intro dict_reader_records) simp
  finally show ?thesis .
qed

theorem save_load_round_trip_witness:
  "fst (save_records \<lparr>tmp_write = Completes, replace_ok = False, rewrite = Completes\<rparr>
          [\<lparr>items = fmap_of_list
              [(''full_name'', PyStr (''Lee, '' @ [DQUOTE] @ ''Ann'' @ [DQUOTE])),
               (''username'', PyStr ''Ann.Lee''),
               (''password'', PyStr (''Pw'' @ [CR, LF] @ ''1!'')),
               (''pc_name'', PyStr (''PC'' @ [CR] @ ''01'')),
               (''ext'', PyStr []),
               (''ddi'', PyStr [LF]),
               (''email'', PyStr ''Ann.Lee@totalassist.co.uk'')],
            restkey = None\<rparr>]
          \<lparr>files = Map.empty, DB_FILE = ''db.csv''\<rparr>) = Inr ()
   \<and> fst (load_records (snd
        (save_records \<lparr>tmp_write = Completes, replace_ok = False, rewrite = Completes\<rparr>
          [\<lparr>items = fmap_of_list
              [(''full_name'', PyStr (''Lee, '' @ [DQUOTE] @ ''Ann'' @ [DQUOTE])),
               (''username'', PyStr ''Ann.Lee''),
               (''password'', PyStr (''Pw'' @ [CR, LF] @ ''1!'')),
               (''pc_name'', PyStr (''PC'' @ [CR] @ ''01'')),
               (''ext'', PyStr []),
               (''ddi'', PyStr [LF]),
               (''email'', PyStr ''Ann.Lee@totalassist.co.uk'')],
            restkey = None\<rparr>]
          \<lparr>files = Map.empty, DB_FILE = ''db.csv''\<rparr>)))
     = Inr [\<lparr>items = fmap_of_list
              [(''full_name'', PyStr (''Lee, '' @ [DQUOTE] @ ''Ann'' @ [DQUOTE])),
               (''username'', PyStr ''Ann.Lee''),
               (''password'', PyStr (''Pw'' @ [CR, LF] @ ''1!'')),
               (''pc_name'', PyStr (''PC'' @ [CR] @ ''01'')),
               (''ext'', PyStr []),
               (''ddi'', PyStr [LF]),
               (''email'', PyStr ''Ann.Lee@totalassist.co.uk'')],
            restkey = None\<rparr>]"
proof -
  let ?os = "\<lparr>tmp_write = Completes, replace_ok = False, rewrite = Completes\<rparr>"
  let ?rec = "\<lparr>items = fmap_of_list
              [(''full_name'', PyStr (''Lee, '' @ [DQUOTE] @ ''Ann'' @ [DQUOTE])),
               (''username'', PyStr ''Ann.Lee''),
               (''password'', PyStr (''Pw'' @ [CR, LF] @ ''1!'')),
               (''pc_name'', PyStr (''PC'' @ [CR] @ ''01'')),
               (''ext'', PyStr []),
               (''ddi'', PyStr [LF]),
               (''email'', PyStr ''Ann.Lee@totalassist.co.uk'')],
            restkey = None\<rparr>"
  let ?w = "\<lparr>files = Map.empty, DB_FILE = ''db.csv''\<rparr>"
  have r: "\<forall>rec\<in>set [?rec].
             is_record rec \<and> (\<forall>key\<in>set FIELDS. length (field_or_empty rec key) \<le> field_limit)"
    by (simp add: is_record_def FIELDS_def field_or_empty_def dict_get_def field_limit_def
        fmlookup_of_list)
  have s: "fst (save_records ?os [?rec] ?w) = Inr ()"
    by (simp add: store_eval fmlookup_of_list)
  then have "save_records ?os [?rec] ?w = (Inr (), snd (save_records ?os [?rec] ?w))"
    by (simp add: prod_eq_iff)
  from save_load_round_trip [OF r this] s show ?thesis by simp
qed

lemma needs_quote_replicate:
  "c \<noteq> CHR '','' \<Longrightarrow> c \<noteq> DQUOTE \<Longrightarrow> c \<noteq> CR \<Longrightarrow> c \<noteq> LF \<Longrightarrow> \<not> needs_quote (replicate n c)"
  by (simp add: needs_quote_iff)

lemma needs_quote_Cons:
  "needs_quote (c # cs) = (c = CHR '','' \<or> c = DQUOTE \<or> c = CR \<or> c = LF \<or> needs_quote cs)"
  by (auto simp: needs_quote_iff)

lemma needs_quote_Nil [simp]: "\<not> needs_quote []"
  by (simp add: needs_quote_iff)

text \<open>
  The claim as stated fails on a record with a field of 131073 characters: the save
  completes, and the load of what it wrote fails as a whole.
\<close>

theorem save_load_round_trip_counterexample:
  "fst (save_records \<lparr>tmp_write = Completes, replace_ok = True, rewrite = Completes\<rparr>
          [\<lparr>items = fmap_of_list
              [(''full_name'', PyStr (CHR ''a'' # replicate 131072 (CHR ''a''))),
               (''username'', PyStr []), (''password'', PyStr []), (''pc_name'', PyStr []),
               (''ext'', PyStr []), (''ddi'', PyStr []), (''email'', PyStr [])],
            restkey = None\<rparr>]
          \<lparr>files = Map.empty, DB_FILE = ''db.csv''\<rparr>) = Inr ()
   \<and> fst (load_records (snd
        (save_records \<lparr>tmp_write = Completes, replace_ok = True, rewrite = Completes\<rparr>
          [\<lparr>items = fmap_of_list
              [(''full_name'', PyStr (CHR ''a'' # replicate 131072 (CHR ''a''))),
               (''username'', PyStr []), (''password'', PyStr []), (''pc_name'', PyStr []),
               (''ext'', PyStr []), (''ddi'', PyStr []), (''email'', PyStr [])],
            restkey = None\<rparr>]
          \<lparr>files = Map.empty, DB_FILE = ''db.csv''\<rparr>)))
     = Inl (CsvError FieldLargerThanLimit)"
proof -
  let ?os = "\<lparr>tmp_write = Completes, replace_ok = True, rewrite = Completes\<rparr>"
  let ?big = "CHR ''a'' # replicate 131072 (CHR ''a'')"
  define big_rec where "big_rec = \<lparr>items = fmap_of_list
              [(''full_name'', PyStr ?big),
               (''username'', PyStr []), (''password'', PyStr []), (''pc_name'', PyStr []),
               (''ext'', PyStr []), (''ddi'', PyStr []), (''email'', PyStr [])],
            restkey = None\<rparr>"
  let ?w = "\<lparr>files = Map.empty, DB_FILE = ''db.csv''\<rparr>"
  let ?tbl = "''full_name,username,password,pc_name,ext,ddi,email'' @ [CR, LF]
              @ ?big @ '',,,,,,'' @ [CR, LF]"
  have nq: "\<not> needs_quote (replicate 131072 (CHR ''a''))"
    by (rule needs_quote_replicate) simp_all
  have t: "write_table [big_rec] = (None, ?tbl)"
    by (simp add: big_rec_def write_table_def dict_to_list_def dict_get_def writerow_def
        join_append_def FIELDS_def fmlookup_of_list needs_quote_Cons nq)
  have s: "save_records ?os [big_rec] ?w
             = (Inr (), \<lparr>files = [''db.csv'' \<mapsto> Text ?tbl], DB_FILE = ''db.csv''\<rparr>)"
    by (simp add: save_records_def ensure_db_def write_csv_def t with_suffix_def path_name_def
        path_dir_def name_suffix_def os_replace_def fun_upd_twist)
  have "feed \<lparr>pstate = IN_FIELD, pfield = ''a'', pfields = []\<rparr>
          (events InLine (replicate 131072 (CHR ''a'') @ '',,,,,,'' @ [CR, LF]))
        = Inl (CsvError FieldLargerThanLimit)"
    by (rule feed_plain_overflow) (simp_all add: field_limit_def)
  then have "feed parse_reset (events AtStart ?tbl) = Inl (CsvError FieldLargerThanLimit)"
    by (simp add: step_defs parse_reset_def field_limit_def cons_row_def)
  then have "fst (load_records \<lparr>files = [''db.csv'' \<mapsto> Text ?tbl], DB_FILE = ''db.csv''\<rparr>)
               = Inl (CsvError FieldLargerThanLimit)"
    by (simp add: load_records_def ensure_db_def csv_reader_feed)
  with s have "fst (save_records ?os [big_rec] ?w) = Inr ()
      \<and> fst (load_records (snd (save_records ?os [big_rec] ?w)))
          = Inl (CsvError FieldLargerThanLimit)"
    by simp
  then show ?thesis unfolding big_rec_def .
qed

end
